theory Spec2Isabelle
  imports Complex_Main
begin

section \<open>The planar graph of kite's constructive area geometry\<close>

text \<open>
  A shallow embedding of \<^verbatim>\<open>Graph.js\<close> (the multigraph whose edges are segments),
  of \<^verbatim>\<open>Subpath.js\<close> and of \<^verbatim>\<open>Loop.js\<close>.

  JavaScript objects have identity and are mutated in place. Vertex, Edge and Face objects
  are therefore kept in an object store, one total function per class from object
  identifiers to field records, and every reference is an identifier. \<^verbatim>\<open>a === b\<close> on
  objects is equality of identifiers. \<^verbatim>\<open>createFromPool\<close> and \<^verbatim>\<open>new\<close> take the next
  unused identifier (the pool itself only recycles storage).

  Numbers: curve parameters and distances are real numbers, so floating-point rounding is
  not modelled; a distance may also be \<^verbatim>\<open>NaN\<close> or infinite, see \<open>number\<close>.
\<close>

subsection \<open>Data model\<close>

datatype error = TypeError | AssertionError

text \<open>A JavaScript number that may fail to be finite.\<close>

datatype number = Num real | PosInfinity | NegInfinity | NaN

text \<open>\<^verbatim>\<open>a < b\<close> on JavaScript numbers: false whenever an operand is \<^verbatim>\<open>NaN\<close>.\<close>

fun numLess :: "number \<Rightarrow> number \<Rightarrow> bool" where
  "numLess (Num a) (Num b) = (a < b)"
| "numLess (Num a) PosInfinity = True"
| "numLess NegInfinity (Num b) = True"
| "numLess NegInfinity PosInfinity = True"
| "numLess _ _ = False"

text \<open>\<^verbatim>\<open>a === b\<close> on JavaScript numbers: \<^verbatim>\<open>NaN\<close> equals nothing.\<close>

fun numEq :: "number \<Rightarrow> number \<Rightarrow> bool" where
  "numEq (Num a) (Num b) = (a = b)"
| "numEq PosInfinity PosInfinity = True"
| "numEq NegInfinity NegInfinity = True"
| "numEq _ _ = False"

text \<open>
  A half-edge is owned by its edge: \<open>(e, False)\<close> is \<^verbatim>\<open>e.forwardHalf\<close> and
  \<open>(e, True)\<close> is \<^verbatim>\<open>e.reversedHalf\<close>.
\<close>

type_synonym halfEdge = "nat \<times> bool"

definition forwardHalf :: "nat \<Rightarrow> halfEdge" where
  "forwardHalf e = (e, False)"

definition reversedHalf :: "nat \<Rightarrow> halfEdge" where
  "reversedHalf e = (e, True)"

definition getReversed :: "halfEdge \<Rightarrow> halfEdge" where
  "getReversed h = (fst h, \<not> snd h)"

text \<open>
  Modelled from the spec: the classes Vertex, Edge, HalfEdge and Face (their files are not
  part of the sources at hand). Section 3 gives their fields; the transient fields of the
  bridge search and the boundary lists of a face are left out. The \<^verbatim>\<open>face\<close> field of
  the two half-edges of an edge is kept with the edge.
\<close>

record 'p vertex =
  point :: 'p
  incidentHalfEdges :: "halfEdge list"

record 's edge =
  segment :: 's
  startVertex :: nat
  endVertex :: nat
  forwardFace :: "nat option"
  reversedFace :: "nat option"

record face =
  windingMap :: "(int \<rightharpoonup> number) option"
  filled :: "bool option"

text \<open>\<^verbatim>\<open>Loop.js\<close>: a shape identifier and the half-edges of one input subpath.\<close>

record loop =
  shapeId :: int
  halfEdges :: "halfEdge list"

text \<open>\<^verbatim>\<open>Subpath.js\<close>.\<close>

record ('p, 's) subpath =
  points :: "'p list"
  segments :: "'s list"
  closed :: bool

text \<open>The fields of \<^verbatim>\<open>Graph\<close>, with the object store and the allocation counter.\<close>

record ('p, 's) graph =
  vertices :: "nat list"
  edges :: "nat list"
  shapeIds :: "int list"
  loops :: "loop list"
  faces :: "nat list"
  unboundedFace :: nat
  vertexObj :: "nat \<Rightarrow> 'p vertex"
  edgeObj :: "nat \<Rightarrow> 's edge"
  faceObj :: "nat \<Rightarrow> face"
  nextId :: nat

text \<open>
  Modelled from the spec: \<^verbatim>\<open>forwardHalf.start == startVertex\<close>,
  \<^verbatim>\<open>forwardHalf.end == endVertex\<close>, and the reversed half swaps these.
\<close>

definition halfStart :: "('p, 's) graph \<Rightarrow> halfEdge \<Rightarrow> nat" where
  "halfStart g h = (if snd h then endVertex (edgeObj g (fst h)) else startVertex (edgeObj g (fst h)))"

definition halfEnd :: "('p, 's) graph \<Rightarrow> halfEdge \<Rightarrow> nat" where
  "halfEnd g h = (if snd h then startVertex (edgeObj g (fst h)) else endVertex (edgeObj g (fst h)))"

definition halfFace :: "('p, 's) graph \<Rightarrow> halfEdge \<Rightarrow> nat option" where
  "halfFace g h = (if snd h then reversedFace (edgeObj g (fst h)) else forwardFace (edgeObj g (fst h)))"

text \<open>
  What the graph asks of its collaborators: whether \<^verbatim>\<open>assert\<close> is enabled, the
  operations of \<^verbatim>\<open>Vector2\<close> it calls, the operations of segments it calls (an
  intersection is a point with the two parameters), and \<^verbatim>\<open>Util.linear\<close>.
\<close>

datatype segmentKind = IsLine | IsQuadratic | IsCubic | IsArc

record intersection =
  aT :: real
  bT :: real

record overlap =
  t0 :: real
  t1 :: real
  qt0 :: real
  qt1 :: real
  overlapA :: real

record ('p, 's) env =
  assertEnabled :: bool
  equalsV :: "'p \<Rightarrow> 'p \<Rightarrow> bool"
  distanceV :: "'p \<Rightarrow> 'p \<Rightarrow> number"
  averageV :: "'p \<Rightarrow> 'p \<Rightarrow> 'p"
  segStart :: "'s \<Rightarrow> 'p"
  segEnd :: "'s \<Rightarrow> 'p"
  newLine :: "'p \<Rightarrow> 'p \<Rightarrow> 's"
  kindOf :: "'s \<Rightarrow> segmentKind"
  subdivided :: "'s \<Rightarrow> real \<Rightarrow> 's \<times> 's"
  linearMap :: "real \<Rightarrow> real \<Rightarrow> real \<Rightarrow> real \<Rightarrow> real \<Rightarrow> real"
  intersect :: "'s \<Rightarrow> 's \<Rightarrow> ('p \<times> intersection) list"
  getOverlaps :: "'s \<Rightarrow> 's \<Rightarrow> overlap list"

definition vertexEpsilon :: real where
  "vertexEpsilon = 1 / 100000"

subsection \<open>Object creation\<close>

definition createVertex :: "'p \<Rightarrow> ('p, 's) graph \<Rightarrow> nat \<times> ('p, 's) graph" where
  "createVertex p g =
     (nextId g,
      g\<lparr>vertexObj := (vertexObj g)(nextId g := \<lparr>point = p, incidentHalfEdges = []\<rparr>),
        nextId := Suc (nextId g)\<rparr>)"

definition createEdge :: "'s \<Rightarrow> nat \<Rightarrow> nat \<Rightarrow> ('p, 's) graph \<Rightarrow> nat \<times> ('p, 's) graph" where
  "createEdge s v w g =
     (nextId g,
      g\<lparr>edgeObj := (edgeObj g)(nextId g :=
           \<lparr>segment = s, startVertex = v, endVertex = w,
            forwardFace = None, reversedFace = None\<rparr>),
        nextId := Suc (nextId g)\<rparr>)"

subsection \<open>Connecting and disconnecting edges\<close>

definition pushIncident :: "nat \<Rightarrow> halfEdge \<Rightarrow> ('p, 's) graph \<Rightarrow> ('p, 's) graph" where
  "pushIncident v h g =
     g\<lparr>vertexObj := (vertexObj g)(v :=
          (vertexObj g v)\<lparr>incidentHalfEdges := incidentHalfEdges (vertexObj g v) @ [h]\<rparr>)\<rparr>"

definition removeIncident :: "nat \<Rightarrow> halfEdge \<Rightarrow> ('p, 's) graph \<Rightarrow> ('p, 's) graph" where
  "removeIncident v h g =
     g\<lparr>vertexObj := (vertexObj g)(v :=
          (vertexObj g v)\<lparr>incidentHalfEdges := remove1 h (incidentHalfEdges (vertexObj g v))\<rparr>)\<rparr>"

text \<open>
  \<^verbatim>\<open>addEdge\<close>: the edge joins the edge list, its reversed half joins the incidence
  list of its start vertex and its forward half that of its end vertex.
\<close>

definition addEdge :: "nat \<Rightarrow> ('p, 's) graph \<Rightarrow> ('p, 's) graph" where
  "addEdge e g =
     pushIncident (endVertex (edgeObj g e)) (forwardHalf e)
       (pushIncident (startVertex (edgeObj g e)) (reversedHalf e)
         (g\<lparr>edges := edges g @ [e]\<rparr>))"

text \<open>\<^verbatim>\<open>removeEdge\<close>; \<^verbatim>\<open>arrayRemove\<close> takes out the first occurrence.\<close>

definition removeEdge :: "nat \<Rightarrow> ('p, 's) graph \<Rightarrow> ('p, 's) graph" where
  "removeEdge e g =
     removeIncident (endVertex (edgeObj g e)) (forwardHalf e)
       (removeIncident (startVertex (edgeObj g e)) (reversedHalf e)
         (g\<lparr>edges := remove1 e (edges g)\<rparr>))"

text \<open>
  \<^verbatim>\<open>replaceEdgeInLoops\<close>: every occurrence of a half of the edge in a loop is replaced,
  the forward half by the given half-edges and the reversed half by their reversals in
  reverse order. The source scans each loop from its last index down and splices in place,
  so a half-edge it has inserted is never examined again.
\<close>

definition replaceInLoop :: "nat \<Rightarrow> halfEdge list \<Rightarrow> halfEdge list \<Rightarrow> halfEdge list" where
  "replaceInLoop e fwd hs =
     concat (map (\<lambda>h. if fst h = e then (if h = forwardHalf e then fwd else rev (map getReversed fwd))
                       else [h]) hs)"

definition replaceEdgeInLoops :: "nat \<Rightarrow> halfEdge list \<Rightarrow> ('p, 's) graph \<Rightarrow> ('p, 's) graph" where
  "replaceEdgeInLoops e fwd g =
     g\<lparr>loops := map (\<lambda>l. l\<lparr>halfEdges := replaceInLoop e fwd (halfEdges l)\<rparr>) (loops g)\<rparr>"

subsection \<open>Ingestion\<close>

text \<open>
  \<^verbatim>\<open>Subpath.hasClosingSegment\<close>: the first point differs from the last one. On an empty
  point list \<^verbatim>\<open>_.first\<close> gives \<^verbatim>\<open>undefined\<close> and the call of \<^verbatim>\<open>equals\<close> throws.
\<close>

definition hasClosingSegment :: "('p, 's) env \<Rightarrow> ('p, 's) subpath \<Rightarrow> error + bool" where
  "hasClosingSegment env sp =
     (case points sp of
        [] \<Rightarrow> Inl TypeError
      | p # ps \<Rightarrow> Inr (\<not> equalsV env p (last (p # ps))))"

definition getClosingSegment :: "('p, 's) env \<Rightarrow> ('p, 's) subpath \<Rightarrow> error + 's" where
  "getClosingSegment env sp =
     (case hasClosingSegment env sp of
        Inl e \<Rightarrow> Inl e
      | Inr c \<Rightarrow>
          if assertEnabled env \<and> \<not> c then Inl AssertionError
          else Inr (newLine env (last (points sp)) (hd (points sp))))"

text \<open>The local \<^verbatim>\<open>segments\<close> of \<^verbatim>\<open>addSubpath\<close>, computed once the subpath has a segment.\<close>

definition subpathSegments :: "('p, 's) env \<Rightarrow> ('p, 's) subpath \<Rightarrow> error + 's list" where
  "subpathSegments env sp =
     (case hasClosingSegment env sp of
        Inl e \<Rightarrow> Inl e
      | Inr c \<Rightarrow>
          if c then
            (case getClosingSegment env sp of
               Inl e \<Rightarrow> Inl e
             | Inr s \<Rightarrow> Inr (segments sp @ [s]))
          else Inr (segments sp))"

text \<open>The first loop of \<^verbatim>\<open>addSubpath\<close>: one vertex for each join of consecutive segments.\<close>

fun joinVertices ::
  "('p, 's) env \<Rightarrow> 's list \<Rightarrow> nat list \<Rightarrow> ('p, 's) graph \<Rightarrow> error + (nat list \<times> ('p, 's) graph)" where
  "joinVertices env segs [] g = Inr ([], g)"
| "joinVertices env segs (index # rest) g =
     (let previousIndex = (if index = 0 then length segs - 1 else index - 1);
          end = segEnd env (segs ! previousIndex);
          start = segStart env (segs ! index)
      in if \<not> equalsV env start end \<and> assertEnabled env
              \<and> \<not> numLess (distanceV env start end) (Num vertexEpsilon)
         then Inl AssertionError
         else
           (let (v, g1) = createVertex (if equalsV env start end then start
                                        else averageV env start end) g
            in case joinVertices env segs rest g1 of
                 Inl e \<Rightarrow> Inl e
               | Inr (vs, g2) \<Rightarrow> Inr (v # vs, g2)))"

text \<open>The second loop: one edge for each segment, connected and listed in the loop.\<close>

fun subpathEdges ::
  "'s list \<Rightarrow> nat list \<Rightarrow> nat list \<Rightarrow> ('p, 's) graph \<Rightarrow> halfEdge list \<times> ('p, 's) graph" where
  "subpathEdges segs vs [] g = ([], g)"
| "subpathEdges segs vs (index # rest) g =
     (let nextIndex = (if index + 1 = length segs then 0 else index + 1);
          (e, g1) = createEdge (segs ! index) (vs ! index) (vs ! nextIndex) g;
          (hs, g2) = subpathEdges segs vs rest (addEdge e g1)
      in (forwardHalf e # hs, g2))"

definition addShapeId :: "int \<Rightarrow> ('p, 's) graph \<Rightarrow> ('p, 's) graph" where
  "addShapeId sid g = (if sid \<in> set (shapeIds g) then g else g\<lparr>shapeIds := shapeIds g @ [sid]\<rparr>)"

definition addSubpath ::
  "('p, 's) env \<Rightarrow> int \<Rightarrow> ('p, 's) subpath \<Rightarrow> ('p, 's) graph \<Rightarrow> error + ('p, 's) graph" where
  "addSubpath env sid sp g =
     (let g0 = addShapeId sid g
      in if segments sp = [] then Inr g0
         else
           (case subpathSegments env sp of
              Inl e \<Rightarrow> Inl e
            | Inr segs \<Rightarrow>
                (case joinVertices env segs [0..<length segs] g0 of
                   Inl e \<Rightarrow> Inl e
                 | Inr (vs, g1) \<Rightarrow>
                     (let (hs, g2) = subpathEdges segs vs [0..<length segs] g1
                      in Inr (g2\<lparr>loops := loops g2 @ [\<lparr>shapeId = sid, halfEdges = hs\<rparr>],
                                 vertices := vertices g2 @ vs\<rparr>)))))"

text \<open>\<^verbatim>\<open>addShape\<close>: the subpaths in order; an exception ends the loop.\<close>

fun addShape ::
  "('p, 's) env \<Rightarrow> int \<Rightarrow> ('p, 's) subpath list \<Rightarrow> ('p, 's) graph \<Rightarrow> error + ('p, 's) graph" where
  "addShape env sid [] g = Inr g"
| "addShape env sid (sp # sps) g =
     (case addSubpath env sid sp g of
        Inl e \<Rightarrow> Inl e
      | Inr g1 \<Rightarrow> addShape env sid sps g1)"

subsection \<open>Winding maps\<close>

text \<open>
  \<^verbatim>\<open>computeDifferential\<close>: the loops of the shape in order, the half-edges of each loop in
  order, one step up for the forward half of the edge and one step down for its reversed
  half.
\<close>

definition computeDifferential :: "('p, 's) graph \<Rightarrow> nat \<Rightarrow> int \<Rightarrow> int" where
  "computeDifferential g e sid =
     foldl (\<lambda>differential l.
              if shapeId l \<noteq> sid then differential
              else foldl (\<lambda>d loopHalfEdge.
                            if loopHalfEdge = forwardHalf e then d + 1
                            else if loopHalfEdge = reversedHalf e then d - 1
                            else d)
                         differential (halfEdges l))
           0 (loops g)"

text \<open>
  A winding map is a JavaScript object: reading a missing key gives \<^verbatim>\<open>undefined\<close>, which
  is \<^verbatim>\<open>NaN\<close> in arithmetic.
\<close>

fun numAdd :: "number \<Rightarrow> number \<Rightarrow> number" where
  "numAdd (Num a) (Num b) = Num (a + b)"
| "numAdd NaN _ = NaN"
| "numAdd _ NaN = NaN"
| "numAdd PosInfinity NegInfinity = NaN"
| "numAdd NegInfinity PosInfinity = NaN"
| "numAdd PosInfinity _ = PosInfinity"
| "numAdd _ PosInfinity = PosInfinity"
| "numAdd NegInfinity _ = NegInfinity"
| "numAdd _ NegInfinity = NegInfinity"

fun numNeg :: "number \<Rightarrow> number" where
  "numNeg (Num a) = Num (- a)"
| "numNeg PosInfinity = NegInfinity"
| "numNeg NegInfinity = PosInfinity"
| "numNeg NaN = NaN"

definition numSub :: "number \<Rightarrow> number \<Rightarrow> number" where
  "numSub u v = numAdd u (numNeg v)"

definition readWinding :: "(int \<rightharpoonup> number) \<Rightarrow> int \<Rightarrow> number" where
  "readWinding m sid = (case m sid of None \<Rightarrow> NaN | Some w \<Rightarrow> w)"

definition setWindingMap :: "nat \<Rightarrow> (int \<rightharpoonup> number) \<Rightarrow> ('p, 's) graph \<Rightarrow> ('p, 's) graph" where
  "setWindingMap f m g = g\<lparr>faceObj := (faceObj g)(f := (faceObj g f)\<lparr>windingMap := Some m\<rparr>)\<rparr>"

text \<open>The winding numbers for the outside are 0.\<close>

definition outsideMap :: "int list \<Rightarrow> (int \<rightharpoonup> number)" where
  "outsideMap ids = foldl (\<lambda>m sid. m(sid \<mapsto> Num 0)) Map.empty ids"

text \<open>The map of the unsolved face across edge \<open>e\<close>, from the map of the solved face.\<close>

definition solvedAcross ::
  "('p, 's) graph \<Rightarrow> nat \<Rightarrow> (int \<rightharpoonup> number) \<Rightarrow> bool \<Rightarrow> (int \<rightharpoonup> number)" where
  "solvedAcross g e solvedMap solvedForward =
     foldl (\<lambda>m sid. m(sid \<mapsto>
              numAdd (readWinding solvedMap sid)
                (Num (of_int (computeDifferential g e sid * (if solvedForward then - 1 else 1))))))
           Map.empty (shapeIds g)"

text \<open>
  The body of the inner loop of \<^verbatim>\<open>computeWindingMap\<close> for one edge of the work list.
  The result says whether the edge is spliced out of the work list. A half-edge without a
  face makes the read of \<^verbatim>\<open>windingMap\<close> throw.
\<close>

definition windingStep ::
  "('p, 's) env \<Rightarrow> ('p, 's) graph \<Rightarrow> nat \<Rightarrow> error + (bool \<times> ('p, 's) graph)" where
  "windingStep env g e =
     (if assertEnabled env \<and> halfFace g (forwardHalf e) = halfFace g (reversedHalf e)
      then Inl AssertionError
      else
        (case (halfFace g (forwardHalf e), halfFace g (reversedHalf e)) of
           (Some fwdFace, Some revFace) \<Rightarrow>
             (case (windingMap (faceObj g fwdFace), windingMap (faceObj g revFace)) of
                (Some mf, Some mr) \<Rightarrow>
                  if assertEnabled env \<and>
                     \<not> list_all (\<lambda>sid. numEq (numSub (readWinding mf sid) (readWinding mr sid))
                                            (Num (of_int (computeDifferential g e sid))))
                          (shapeIds g)
                  then Inl AssertionError
                  else Inr (True, g)
              | (None, None) \<Rightarrow> Inr (False, g)
              | (Some mf, None) \<Rightarrow>
                  Inr (False, setWindingMap revFace (solvedAcross g e mf True) g)
              | (None, Some mr) \<Rightarrow>
                  Inr (False, setWindingMap fwdFace (solvedAcross g e mr False) g))
         | _ \<Rightarrow> Inl TypeError))"

text \<open>
  One run of the inner loop over the work list, in the order in which the edges are
  visited; the result lists the edges that stay, in the same order.
\<close>

fun windingPass ::
  "('p, 's) env \<Rightarrow> nat list \<Rightarrow> ('p, 's) graph \<Rightarrow> error + (nat list \<times> ('p, 's) graph)" where
  "windingPass env [] g = Inr ([], g)"
| "windingPass env (e # es) g =
     (case windingStep env g e of
        Inl err \<Rightarrow> Inl err
      | Inr (spliced, g1) \<Rightarrow>
          (case windingPass env es g1 of
             Inl err \<Rightarrow> Inl err
           | Inr (kept, g2) \<Rightarrow> Inr (if spliced then kept else e # kept, g2)))"

text \<open>
  The outer loop runs while the work list is not empty; the inner loop visits it from its
  last index down. A run that never ends is the value \<open>None\<close>.
\<close>

partial_function (option) windingLoop ::
  "('p, 's) env \<Rightarrow> nat list \<Rightarrow> ('p, 's) graph \<Rightarrow> (error + ('p, 's) graph) option" where
  "windingLoop env es g =
     (if es = [] then Some (Inr g)
      else
        (case windingPass env (rev es) g of
           Inl err \<Rightarrow> Some (Inl err)
         | Inr (kept, g1) \<Rightarrow> windingLoop env (rev kept) g1))"

definition computeWindingMap ::
  "('p, 's) env \<Rightarrow> ('p, 's) graph \<Rightarrow> (error + ('p, 's) graph) option" where
  "computeWindingMap env g =
     windingLoop env (edges g) (setWindingMap (unboundedFace g) (outsideMap (shapeIds g)) g)"

subsection \<open>Alternating fill\<close>

definition setFilled :: "nat \<Rightarrow> bool option \<Rightarrow> ('p, 's) graph \<Rightarrow> ('p, 's) graph" where
  "setFilled f b g = g\<lparr>faceObj := (faceObj g)(f := (faceObj g f)\<lparr>filled := b\<rparr>)\<rparr>"

text \<open>The body of the loop over the edges; the counter is \<^verbatim>\<open>nullFaceFilledCount\<close>.\<close>

definition fillStep :: "nat \<Rightarrow> ('p, 's) graph \<times> int \<Rightarrow> error + (('p, 's) graph \<times> int)" where
  "fillStep e gc =
     (case gc of (g, nullFaceFilledCount) \<Rightarrow>
        (case (halfFace g (forwardHalf e), halfFace g (reversedHalf e)) of
           (Some fwdFace, Some revFace) \<Rightarrow>
             (case (filled (faceObj g fwdFace), filled (faceObj g revFace)) of
                (None, Some r) \<Rightarrow>
                  Inr (setFilled fwdFace (Some (\<not> r)) g, nullFaceFilledCount - 1)
              | (Some f, None) \<Rightarrow>
                  Inr (setFilled revFace (Some (\<not> f)) g, nullFaceFilledCount - 1)
              | _ \<Rightarrow> Inr (g, nullFaceFilledCount))
         | _ \<Rightarrow> Inl TypeError))"

fun fillPass :: "nat list \<Rightarrow> ('p, 's) graph \<times> int \<Rightarrow> error + (('p, 's) graph \<times> int)" where
  "fillPass [] gc = Inr gc"
| "fillPass (e # es) gc =
     (case fillStep e gc of
        Inl err \<Rightarrow> Inl err
      | Inr gc1 \<Rightarrow> fillPass es gc1)"

partial_function (option) fillLoop ::
  "('p, 's) graph \<times> int \<Rightarrow> (error + ('p, 's) graph) option" where
  "fillLoop gc =
     (if snd gc = 0 then Some (Inr (fst gc))
      else
        (case fillPass (edges (fst gc)) gc of
           Inl err \<Rightarrow> Some (Inl err)
         | Inr gc1 \<Rightarrow> fillLoop gc1))"

text \<open>The first loop: every face of the list gets \<^verbatim>\<open>filled = null\<close> and is counted.\<close>

definition clearFilled :: "('p, 's) graph \<Rightarrow> ('p, 's) graph \<times> int" where
  "clearFilled g = foldl (\<lambda>(g1, n) f. (setFilled f None g1, n + 1)) (g, 0) (faces g)"

definition fillAlternatingFaces :: "('p, 's) graph \<Rightarrow> (error + ('p, 's) graph) option" where
  "fillAlternatingFaces g =
     (case clearFilled g of
        (g1, n) \<Rightarrow> fillLoop (setFilled (unboundedFace g1) (Some False) g1, n - 1))"

subsection \<open>Splitting edges at intersections\<close>

text \<open>A new vertex that also joins the vertex list of the graph.\<close>

definition pushVertex :: "'p \<Rightarrow> ('p, 's) graph \<Rightarrow> nat \<times> ('p, 's) graph" where
  "pushVertex p g =
     (let (v, g1) = createVertex p g in (v, g1\<lparr>vertices := vertices g1 @ [v]\<rparr>))"

text \<open>
  \<^verbatim>\<open>splitEdge\<close>: the two halves of the subdivided segment become edges from the start
  vertex to the given vertex and from there to the end vertex; the old edge is removed and
  replaced in the loops. (The assertion on \<^verbatim>\<open>boundaries\<close> concerns a field that is empty
  until faces are extracted and is not modelled.)
\<close>

definition splitEdge ::
  "('p, 's) env \<Rightarrow> nat \<Rightarrow> real \<Rightarrow> nat \<Rightarrow> ('p, 's) graph \<Rightarrow> ('p, 's) graph" where
  "splitEdge env e t vertex g =
     (let segs = subdivided env (segment (edgeObj g e)) t;
          (firstEdge, g1) = createEdge (fst segs) (startVertex (edgeObj g e)) vertex g;
          (secondEdge, g2) = createEdge (snd segs) vertex (endVertex (edgeObj g e)) g1;
          g3 = removeEdge e g2;
          g4 = addEdge firstEdge g3;
          g5 = addEdge secondEdge g4
      in replaceEdgeInLoops e [forwardHalf firstEdge, forwardHalf secondEdge] g5)"

text \<open>A parameter is internal when it is more than \<open>1e-5\<close> away from both ends.\<close>

definition isInternal :: "real \<Rightarrow> bool" where
  "isInternal t = (t > 1 / 100000 \<and> t < 1 - 1 / 100000)"

definition simpleSplit ::
  "('p, 's) env \<Rightarrow> nat \<Rightarrow> nat \<Rightarrow> real \<Rightarrow> real \<Rightarrow> 'p \<Rightarrow> ('p, 's) graph \<Rightarrow> ('p, 's) graph" where
  "simpleSplit env aEdge bEdge ta tb p g =
     (let aInternal = isInternal ta;
          bInternal = isInternal tb;
          (vertex, g1) =
            (if \<not> aInternal
             then (if ta < 1 / 2 then startVertex (edgeObj g aEdge)
                   else endVertex (edgeObj g aEdge), g)
             else if \<not> bInternal
             then (if tb < 1 / 2 then startVertex (edgeObj g bEdge)
                   else endVertex (edgeObj g bEdge), g)
             else pushVertex p g);
          g2 = (if aInternal then splitEdge env aEdge ta vertex g1 else g1)
      in if bInternal then splitEdge env bEdge tb vertex g2 else g2)"

text \<open>The filter of \<^verbatim>\<open>eliminateIntersection\<close> on the intersections of a pair.\<close>

definition keepIntersection :: "'p \<times> intersection \<Rightarrow> bool" where
  "keepIntersection x =
     (let aInternal = isInternal (aT (snd x));
          bInternal = isInternal (bT (snd x))
      in aInternal \<or> bInternal)"

text \<open>
  The scan over the pairs of edges, the first edge before the second in the edge list:
  the first pair with an intersection that passes the filter, and the first such
  intersection.
\<close>

fun intersectWith ::
  "('p, 's) env \<Rightarrow> ('p, 's) graph \<Rightarrow> nat \<Rightarrow> nat list \<Rightarrow> (nat \<times> 'p \<times> intersection) option" where
  "intersectWith env g aEdge [] = None"
| "intersectWith env g aEdge (bEdge # rest) =
     (case filter keepIntersection
             (intersect env (segment (edgeObj g aEdge)) (segment (edgeObj g bEdge))) of
        [] \<Rightarrow> intersectWith env g aEdge rest
      | x # _ \<Rightarrow> Some (bEdge, x))"

fun findIntersection ::
  "('p, 's) env \<Rightarrow> ('p, 's) graph \<Rightarrow> nat list \<Rightarrow> (nat \<times> nat \<times> 'p \<times> intersection) option" where
  "findIntersection env g [] = None"
| "findIntersection env g (aEdge # rest) =
     (case intersectWith env g aEdge rest of
        Some (bEdge, x) \<Rightarrow> Some (aEdge, bEdge, x)
      | None \<Rightarrow> findIntersection env g rest)"

text \<open>The scan restarts after every split; it need not end.\<close>

partial_function (option) eliminateIntersection ::
  "('p, 's) env \<Rightarrow> ('p, 's) graph \<Rightarrow> ('p, 's) graph option" where
  "eliminateIntersection env g =
     (case findIntersection env g (edges g) of
        None \<Rightarrow> Some g
      | Some (aEdge, bEdge, x) \<Rightarrow>
          eliminateIntersection env
            (simpleSplit env aEdge bEdge (aT (snd x)) (bT (snd x)) (fst x) g))"

subsection \<open>Splitting overlapping edges\<close>

text \<open>The rounding of the overlap parameters at the ends.\<close>

definition snapLow :: "real \<Rightarrow> real" where
  "snapLow t = (if t < 1 / 100000 then 0 else t)"

definition snapHigh :: "real \<Rightarrow> real" where
  "snapHigh t = (if t > 1 - 1 / 100000 then 1 else t)"

text \<open>The vertex at one end of the shared piece: new when both edges go on beyond it.\<close>

definition overlapVertex ::
  "bool \<Rightarrow> 'p \<Rightarrow> nat \<Rightarrow> ('p, 's) graph \<Rightarrow> nat \<times> ('p, 's) graph" where
  "overlapVertex both p reused g = (if both then pushVertex p g else (reused, g))"

text \<open>An edge for a piece that exists.\<close>

definition addPiece ::
  "'s option \<Rightarrow> nat \<Rightarrow> nat \<Rightarrow> ('p, 's) graph \<Rightarrow> nat option \<times> ('p, 's) graph" where
  "addPiece piece v w g =
     (case piece of
        None \<Rightarrow> (None, g)
      | Some s \<Rightarrow> (let (e, g1) = createEdge s v w g in (Some e, addEdge e g1)))"

definition optionList :: "'a option \<Rightarrow> 'a list" where
  "optionList x = (case x of None \<Rightarrow> [] | Some y \<Rightarrow> [y])"

text \<open>
  \<^verbatim>\<open>splitOverlap\<close>, first part: the pieces of the two segments before and after the
  overlap, where they exist, and the shared middle piece, cut from the first segment.
\<close>

definition overlapPieces ::
  "('p, 's) env \<Rightarrow> 's \<Rightarrow> 's \<Rightarrow> overlap \<Rightarrow> 's option \<times> 's option \<times> 's option \<times> 's option \<times> 's" where
  "overlapPieces env aSegment bSegment ov =
     (let u0 = snapLow (t0 ov); u1 = snapHigh (t1 ov);
          q0 = snapLow (qt0 ov); q1 = snapHigh (qt1 ov);
          aBefore = (if u0 > 0 then Some (fst (subdivided env aSegment u0)) else None);
          bBefore = (if q0 > 0 then Some (fst (subdivided env bSegment q0)) else None);
          aAfter = (if u1 < 1 then Some (snd (subdivided env aSegment u1)) else None);
          bAfter = (if q1 < 1 then Some (snd (subdivided env bSegment q1)) else None);
          middle0 = (if u0 > 0 then snd (subdivided env aSegment u0) else aSegment);
          middle = (if u1 < 1 then fst (subdivided env middle0 (linearMap env u0 1 0 1 u1))
                    else middle0)
      in (aBefore, bBefore, aAfter, bAfter, middle))"

text \<open>
  Last part: the edge of the middle piece and the edges of the pieces that exist are
  created and added; the result lists the new edges in the order in which they are added,
  the half-edges that replace the first edge in the loops and those that replace the
  second edge (which runs through the middle edge backwards when the overlap is reversed).
\<close>

definition addOverlapEdges ::
  "overlap \<Rightarrow> nat \<Rightarrow> nat \<Rightarrow> nat \<Rightarrow> nat \<Rightarrow> 's option \<Rightarrow> 's option \<Rightarrow> 's option \<Rightarrow> 's option \<Rightarrow> 's
     \<Rightarrow> nat \<Rightarrow> nat \<Rightarrow> ('p, 's) graph
     \<Rightarrow> nat list \<times> halfEdge list \<times> halfEdge list \<times> ('p, 's) graph" where
  "addOverlapEdges ov aStart aEnd bStart bEnd aBefore bBefore aAfter bAfter middle
       beforeVertex afterVertex g =
     (let (middleEdge, g4) = createEdge middle beforeVertex afterVertex g;
          g5 = addEdge middleEdge g4;
          (aBeforeEdge, g6) = addPiece aBefore aStart beforeVertex g5;
          (aAfterEdge, g7) = addPiece aAfter afterVertex aEnd g6;
          (bBeforeEdge, g8) =
            addPiece bBefore bStart (if overlapA ov > 0 then beforeVertex else afterVertex) g7;
          (bAfterEdge, g9) =
            addPiece bAfter (if overlapA ov > 0 then afterVertex else beforeVertex) bEnd g8;
          aEdges = optionList aBeforeEdge @ [middleEdge] @ optionList aAfterEdge;
          bEdges = optionList bBeforeEdge @ [middleEdge] @ optionList bAfterEdge;
          aForwardHalfEdges = map forwardHalf aEdges;
          bForwardHalfEdges =
            map (\<lambda>e. if e \<noteq> middleEdge \<or> overlapA ov > 0 then forwardHalf e
                      else reversedHalf e) bEdges
      in (middleEdge # optionList aBeforeEdge @ optionList aAfterEdge
            @ optionList bBeforeEdge @ optionList bAfterEdge,
          aForwardHalfEdges, bForwardHalfEdges, g9))"

text \<open>
  \<^verbatim>\<open>splitOverlap\<close> up to the replacement in the loops: both edges are removed, the
  pieces are cut, the vertices at the two ends of the middle piece are made or reused, and
  the new edges are added.
\<close>

definition splitOverlapParts ::
  "('p, 's) env \<Rightarrow> nat \<Rightarrow> nat \<Rightarrow> overlap \<Rightarrow> ('p, 's) graph
     \<Rightarrow> nat list \<times> halfEdge list \<times> halfEdge list \<times> ('p, 's) graph" where
  "splitOverlapParts env aEdge bEdge ov g =
     (let aStart = startVertex (edgeObj g aEdge); aEnd = endVertex (edgeObj g aEdge);
          bStart = startVertex (edgeObj g bEdge); bEnd = endVertex (edgeObj g bEdge);
          g1 = removeEdge bEdge (removeEdge aEdge g);
          (aBefore, bBefore, aAfter, bAfter, middle) =
            overlapPieces env (segment (edgeObj g aEdge)) (segment (edgeObj g bEdge)) ov;
          (beforeVertex, g2) =
            overlapVertex (aBefore \<noteq> None \<and> bBefore \<noteq> None) (segStart env middle)
              (if aBefore \<noteq> None then (if overlapA ov > 0 then bStart else bEnd) else aStart) g1;
          (afterVertex, g3) =
            overlapVertex (aAfter \<noteq> None \<and> bAfter \<noteq> None) (segEnd env middle)
              (if aAfter \<noteq> None then (if overlapA ov > 0 then bEnd else bStart) else aEnd) g2
      in addOverlapEdges ov aStart aEnd bStart bEnd aBefore bBefore aAfter bAfter middle
           beforeVertex afterVertex g3)"

definition splitOverlap ::
  "('p, 's) env \<Rightarrow> nat \<Rightarrow> nat \<Rightarrow> overlap \<Rightarrow> ('p, 's) graph \<Rightarrow> ('p, 's) graph" where
  "splitOverlap env aEdge bEdge ov g =
     (case splitOverlapParts env aEdge bEdge ov g of
        (newEdges, aForwardHalfEdges, bForwardHalfEdges, g1) \<Rightarrow>
          replaceEdgeInLoops bEdge bForwardHalfEdges
            (replaceEdgeInLoops aEdge aForwardHalfEdges g1))"

text \<open>An overlap is acted upon when it is longer than \<open>1e-5\<close> on both segments.\<close>

definition significantOverlap :: "overlap \<Rightarrow> bool" where
  "significantOverlap ov =
     (\<bar>t1 ov - t0 ov\<bar> > 1 / 100000 \<and> \<bar>qt1 ov - qt0 ov\<bar> > 1 / 100000)"

text \<open>
  The overlaps of a pair of segments: two lines, two quadratics or two cubics have an
  overlap function, other pairs have none.
\<close>

definition pairOverlaps :: "('p, 's) env \<Rightarrow> 's \<Rightarrow> 's \<Rightarrow> overlap list" where
  "pairOverlaps env aSegment bSegment =
     (if kindOf env aSegment = kindOf env bSegment \<and> kindOf env aSegment \<noteq> IsArc
      then getOverlaps env aSegment bSegment else [])"

fun overlapWith ::
  "('p, 's) env \<Rightarrow> ('p, 's) graph \<Rightarrow> nat \<Rightarrow> nat list \<Rightarrow> (nat \<times> overlap) option" where
  "overlapWith env g aEdge [] = None"
| "overlapWith env g aEdge (bEdge # rest) =
     (case filter significantOverlap
             (pairOverlaps env (segment (edgeObj g aEdge)) (segment (edgeObj g bEdge))) of
        [] \<Rightarrow> overlapWith env g aEdge rest
      | ov # _ \<Rightarrow> Some (bEdge, ov))"

fun findOverlap ::
  "('p, 's) env \<Rightarrow> ('p, 's) graph \<Rightarrow> nat list \<Rightarrow> (nat \<times> nat \<times> overlap) option" where
  "findOverlap env g [] = None"
| "findOverlap env g (aEdge # rest) =
     (case overlapWith env g aEdge rest of
        Some (bEdge, ov) \<Rightarrow> Some (aEdge, bEdge, ov)
      | None \<Rightarrow> findOverlap env g rest)"

partial_function (option) eliminateOverlap ::
  "('p, 's) env \<Rightarrow> ('p, 's) graph \<Rightarrow> ('p, 's) graph option" where
  "eliminateOverlap env g =
     (case findOverlap env g (edges g) of
        None \<Rightarrow> Some g
      | Some (aEdge, bEdge, ov) \<Rightarrow> eliminateOverlap env (splitOverlap env aEdge bEdge ov g))"

subsection \<open>Collapsing close vertices\<close>

text \<open>
  The scan of \<^verbatim>\<open>collapseVertices\<close> over the pairs of vertices, the first vertex before
  the second in the vertex list: the first pair whose points are closer than
  \<^verbatim>\<open>vertexEpsilon\<close>. The comparison is false when the distance is \<^verbatim>\<open>NaN\<close>.
\<close>

fun closeTo :: "('p, 's) env \<Rightarrow> ('p, 's) graph \<Rightarrow> nat \<Rightarrow> nat list \<Rightarrow> nat option" where
  "closeTo env g aVertex [] = None"
| "closeTo env g aVertex (bVertex # rest) =
     (if numLess (distanceV env (point (vertexObj g aVertex)) (point (vertexObj g bVertex)))
           (Num vertexEpsilon)
      then Some bVertex else closeTo env g aVertex rest)"

fun findClose :: "('p, 's) env \<Rightarrow> ('p, 's) graph \<Rightarrow> nat list \<Rightarrow> (nat \<times> nat) option" where
  "findClose env g [] = None"
| "findClose env g (aVertex # rest) =
     (case closeTo env g aVertex rest of
        Some bVertex \<Rightarrow> Some (aVertex, bVertex)
      | None \<Rightarrow> findClose env g rest)"

text \<open>
  The body of the loop over the edges for one edge: an edge between the two vertices is
  removed from the graph and from the loops; an edge that starts or ends at one of them
  is moved to the new vertex, whose incidence list gets the half-edge that ends there.
\<close>

definition collapseEdge :: "nat \<Rightarrow> nat \<Rightarrow> nat \<Rightarrow> nat \<Rightarrow> ('p, 's) graph \<Rightarrow> ('p, 's) graph" where
  "collapseEdge aVertex bVertex newVertex e g =
     (let startMatches = (startVertex (edgeObj g e) = aVertex \<or> startVertex (edgeObj g e) = bVertex);
          endMatches = (endVertex (edgeObj g e) = aVertex \<or> endVertex (edgeObj g e) = bVertex)
      in if startMatches \<and> endMatches then replaceEdgeInLoops e [] (removeEdge e g)
         else if startMatches
         then pushIncident newVertex (reversedHalf e)
                (g\<lparr>edgeObj := (edgeObj g)(e := (edgeObj g e)\<lparr>startVertex := newVertex\<rparr>)\<rparr>)
         else if endMatches
         then pushIncident newVertex (forwardHalf e)
                (g\<lparr>edgeObj := (edgeObj g)(e := (edgeObj g e)\<lparr>endVertex := newVertex\<rparr>)\<rparr>)
         else g)"

text \<open>
  The loop over the edges runs from the last index of the edge list down to 0 and reads
  the list as it is at that moment; \<open>k\<close> counts the indices still to visit. Reading past
  the end of the list would give \<^verbatim>\<open>undefined\<close>, whose fields cannot be read.
\<close>

fun collapseEdges :: "nat \<Rightarrow> nat \<Rightarrow> nat \<Rightarrow> nat \<Rightarrow> ('p, 's) graph \<Rightarrow> error + ('p, 's) graph" where
  "collapseEdges aVertex bVertex newVertex 0 g = Inr g"
| "collapseEdges aVertex bVertex newVertex (Suc k) g =
     (if k < length (edges g)
      then collapseEdges aVertex bVertex newVertex k
             (collapseEdge aVertex bVertex newVertex (edges g ! k) g)
      else Inl TypeError)"

text \<open>
  One merge: the new vertex lies at the point of the first vertex when the distance is
  exactly 0 and at the average of the two points otherwise; it is pushed onto the vertex
  list before the two vertices are taken out of it.
\<close>

definition mergeVertices ::
  "('p, 's) env \<Rightarrow> nat \<Rightarrow> nat \<Rightarrow> ('p, 's) graph \<Rightarrow> error + ('p, 's) graph" where
  "mergeVertices env aVertex bVertex g =
     (let distance = distanceV env (point (vertexObj g aVertex)) (point (vertexObj g bVertex));
          (newVertex, g1) =
            pushVertex (if numEq distance (Num 0) then point (vertexObj g aVertex)
                        else averageV env (point (vertexObj g aVertex)) (point (vertexObj g bVertex))) g;
          g2 = g1\<lparr>vertices := remove1 bVertex (remove1 aVertex (vertices g1))\<rparr>
      in collapseEdges aVertex bVertex newVertex (length (edges g2)) g2)"

text \<open>The scan restarts after every merge.\<close>

partial_function (option) collapseLoop ::
  "('p, 's) env \<Rightarrow> ('p, 's) graph \<Rightarrow> (error + ('p, 's) graph) option" where
  "collapseLoop env g =
     (case findClose env g (vertices g) of
        None \<Rightarrow> Some (Inr g)
      | Some (aVertex, bVertex) \<Rightarrow>
          (case mergeVertices env aVertex bVertex g of
             Inl err \<Rightarrow> Some (Inl err)
           | Inr g1 \<Rightarrow> collapseLoop env g1))"

text \<open>The assertions before and after the loop: the end points of every edge are listed.\<close>

definition endpointsListed :: "('p, 's) graph \<Rightarrow> bool" where
  "endpointsListed g =
     (list_all (\<lambda>e. startVertex (edgeObj g e) \<in> set (vertices g)) (edges g)
      \<and> list_all (\<lambda>e. endVertex (edgeObj g e) \<in> set (vertices g)) (edges g))"

definition collapseVertices ::
  "('p, 's) env \<Rightarrow> ('p, 's) graph \<Rightarrow> (error + ('p, 's) graph) option" where
  "collapseVertices env g =
     (if assertEnabled env \<and> \<not> endpointsListed g then Some (Inl AssertionError)
      else
        (case collapseLoop env g of
           None \<Rightarrow> None
         | Some (Inl err) \<Rightarrow> Some (Inl err)
         | Some (Inr g1) \<Rightarrow>
             if assertEnabled env \<and> \<not> endpointsListed g1 then Some (Inl AssertionError)
             else Some (Inr g1)))"

subsection \<open>A concrete plane, to run the model on inputs\<close>

text \<open>
  Points with JavaScript numbers as coordinates and straight lines between them, as in
  \<^verbatim>\<open>Line.js\<close>. Arithmetic on finite numbers is exact; the infinities and \<^verbatim>\<open>NaN\<close>
  follow IEEE 754.
\<close>

type_synonym vector2 = "number \<times> number"

datatype lineSegment = Line vector2 vector2

fun numSign :: "number \<Rightarrow> real" where
  "numSign (Num a) = sgn a"
| "numSign PosInfinity = 1"
| "numSign NegInfinity = - 1"
| "numSign NaN = 0"

fun numMul :: "number \<Rightarrow> number \<Rightarrow> number" where
  "numMul (Num a) (Num b) = Num (a * b)"
| "numMul NaN _ = NaN"
| "numMul _ NaN = NaN"
| "numMul u v =
     (if numSign u * numSign v = 0 then NaN
      else if numSign u * numSign v > 0 then PosInfinity else NegInfinity)"

fun numSqrt :: "number \<Rightarrow> number" where
  "numSqrt (Num a) = (if a < 0 then NaN else Num (sqrt a))"
| "numSqrt PosInfinity = PosInfinity"
| "numSqrt _ = NaN"

definition equalsVector2 :: "vector2 \<Rightarrow> vector2 \<Rightarrow> bool" where
  "equalsVector2 p q = (numEq (fst p) (fst q) \<and> numEq (snd p) (snd q))"

definition distanceVector2 :: "vector2 \<Rightarrow> vector2 \<Rightarrow> number" where
  "distanceVector2 p q =
     numSqrt (numAdd (numMul (numSub (fst p) (fst q)) (numSub (fst p) (fst q)))
                     (numMul (numSub (snd p) (snd q)) (numSub (snd p) (snd q))))"

definition averageVector2 :: "vector2 \<Rightarrow> vector2 \<Rightarrow> vector2" where
  "averageVector2 p q =
     (numMul (numAdd (fst p) (fst q)) (Num (1 / 2)), numMul (numAdd (snd p) (snd q)) (Num (1 / 2)))"

definition isFiniteNumber :: "number \<Rightarrow> bool" where
  "isFiniteNumber u = (case u of Num _ \<Rightarrow> True | _ \<Rightarrow> False)"

definition isFiniteVector2 :: "vector2 \<Rightarrow> bool" where
  "isFiniteVector2 p = (isFiniteNumber (fst p) \<and> isFiniteNumber (snd p))"

text \<open>\<^verbatim>\<open>Line.positionAt\<close> and \<^verbatim>\<open>Line.subdivided\<close>.\<close>

definition positionAt :: "lineSegment \<Rightarrow> real \<Rightarrow> vector2" where
  "positionAt l t =
     (case l of Line s e \<Rightarrow>
        (numAdd (fst s) (numMul (numSub (fst e) (fst s)) (Num t)),
         numAdd (snd s) (numMul (numSub (snd e) (snd s)) (Num t))))"

definition lineSubdivided :: "lineSegment \<Rightarrow> real \<Rightarrow> lineSegment \<times> lineSegment" where
  "lineSubdivided l t =
     (case l of Line s e \<Rightarrow> (Line s (positionAt l t), Line (positionAt l t) e))"

definition lineStart :: "lineSegment \<Rightarrow> vector2" where
  "lineStart l = (case l of Line s e \<Rightarrow> s)"

definition lineEnd :: "lineSegment \<Rightarrow> vector2" where
  "lineEnd l = (case l of Line s e \<Rightarrow> e)"

text \<open>
  The plane with given intersection and overlap detectors (\<^verbatim>\<open>Segment.intersect\<close> and
  \<^verbatim>\<open>Line.getOverlaps\<close> are collaborators).
\<close>

definition planeEnv ::
  "bool \<Rightarrow> (lineSegment \<Rightarrow> lineSegment \<Rightarrow> (vector2 \<times> intersection) list)
        \<Rightarrow> (lineSegment \<Rightarrow> lineSegment \<Rightarrow> overlap list) \<Rightarrow> (vector2, lineSegment) env" where
  "planeEnv asserting isect ovl =
     \<lparr>assertEnabled = asserting, equalsV = equalsVector2, distanceV = distanceVector2,
      averageV = averageVector2, segStart = lineStart, segEnd = lineEnd, newLine = Line,
      kindOf = (\<lambda>_. IsLine), subdivided = lineSubdivided,
      linearMap = (\<lambda>a1 a2 b1 b2 a3. (b2 - b1) / (a2 - a1) * (a3 - a1) + b1), intersect = isect,
      getOverlaps = ovl\<rparr>"

definition emptyGraph :: "(vector2, lineSegment) graph" where
  "emptyGraph =
     \<lparr>vertices = [], edges = [], shapeIds = [], loops = [], faces = [0], unboundedFace = 0,
      vertexObj = (\<lambda>_. \<lparr>point = (Num 0, Num 0), incidentHalfEdges = []\<rparr>),
      edgeObj = (\<lambda>_. \<lparr>segment = Line (Num 0, Num 0) (Num 0, Num 0), startVertex = 0,
                       endVertex = 0, forwardFace = None, reversedFace = None\<rparr>),
      faceObj = (\<lambda>_. \<lparr>windingMap = None, filled = None\<rparr>),
      nextId = 1\<rparr>"

subsection \<open>Predicates and inputs used in the statements\<close>

text \<open>Both half-edges of every edge in the edge list.\<close>

definition halvesOf :: "('p, 's) graph \<Rightarrow> halfEdge list" where
  "halvesOf g = concat (map (\<lambda>e. [forwardHalf e, reversedHalf e]) (edges g))"

text \<open>
  The incidence list of vertex \<open>v\<close> holds, once each, the half-edges of the graph that end
  at \<open>v\<close> (respectively start at \<open>v\<close>).
\<close>

definition incidentByEnd :: "('p, 's) graph \<Rightarrow> nat \<Rightarrow> bool" where
  "incidentByEnd g v =
     (distinct (incidentHalfEdges (vertexObj g v)) \<and>
      set (incidentHalfEdges (vertexObj g v)) = set (filter (\<lambda>h. halfEnd g h = v) (halvesOf g)))"

definition incidentByStart :: "('p, 's) graph \<Rightarrow> nat \<Rightarrow> bool" where
  "incidentByStart g v =
     (distinct (incidentHalfEdges (vertexObj g v)) \<and>
      set (incidentHalfEdges (vertexObj g v)) = set (filter (\<lambda>h. halfStart g h = v) (halvesOf g)))"

text \<open>
  The join before segment \<open>index\<close>: the point its vertex gets, and the condition under
  which the assertion \<^verbatim>\<open>Inaccurate start/end points\<close> fails there.
\<close>

definition joinPoint :: "('p, 's) env \<Rightarrow> 's list \<Rightarrow> nat \<Rightarrow> 'p" where
  "joinPoint env segs index =
     (let start = segStart env (segs ! index);
          end = segEnd env (segs ! (if index = 0 then length segs - 1 else index - 1))
      in if equalsV env start end then start else averageV env start end)"

definition inaccurateJoin :: "('p, 's) env \<Rightarrow> 's list \<Rightarrow> nat \<Rightarrow> bool" where
  "inaccurateJoin env segs index =
     (let start = segStart env (segs ! index);
          end = segEnd env (segs ! (if index = 0 then length segs - 1 else index - 1))
      in \<not> equalsV env start end \<and> \<not> numLess (distanceV env start end) (Num vertexEpsilon))"

text \<open>The plane without intersections and overlaps, assertions off or on.\<close>

definition quietEnv :: "bool \<Rightarrow> (vector2, lineSegment) env" where
  "quietEnv asserting = planeEnv asserting (\<lambda>_ _. []) (\<lambda>_ _. [])"

text \<open>A subpath without segments, an open subpath of one line, and a line at infinity.\<close>

definition pointOnlySubpath :: "(vector2, lineSegment) subpath" where
  "pointOnlySubpath = \<lparr>points = [(Num 0, Num 0), (Num 1, Num 1)], segments = [], closed = True\<rparr>"

definition openSubpath :: "(vector2, lineSegment) subpath" where
  "openSubpath =
     \<lparr>points = [(Num 0, Num 0), (Num 1, Num 0)],
      segments = [Line (Num 0, Num 0) (Num 1, Num 0)], closed = False\<rparr>"

definition infiniteSubpath :: "(vector2, lineSegment) subpath" where
  "infiniteSubpath =
     \<lparr>points = [(PosInfinity, Num 0)],
      segments = [Line (PosInfinity, Num 0) (PosInfinity, Num 0)], closed = True\<rparr>"

text \<open>Two vertices (objects 1 and 2) joined by one edge (object 3) from 1 to 2.\<close>

definition singleEdgeGraph :: "(vector2, lineSegment) graph" where
  "singleEdgeGraph =
     (let (v, g1) = createVertex (Num 0, Num 0) emptyGraph;
          (w, g2) = createVertex (Num 1, Num 0) g1;
          (e, g3) = createEdge (Line (Num 0, Num 0) (Num 1, Num 0)) v w g2
      in (addEdge e g3)\<lparr>vertices := [v, w]\<rparr>)"

text \<open>The same two vertices and the same edge object, the edge not yet connected.\<close>

definition unconnectedEdgeGraph :: "(vector2, lineSegment) graph" where
  "unconnectedEdgeGraph =
     (let (v, g1) = createVertex (Num 0, Num 0) emptyGraph;
          (w, g2) = createVertex (Num 1, Num 0) g1;
          (e, g3) = createEdge (Line (Num 0, Num 0) (Num 1, Num 0)) v w g2
      in g3\<lparr>vertices := [v, w]\<rparr>)"

text \<open>
  The edge differential in the words of the specification: over the loops of the shape, one
  up for each occurrence of the forward half and one down for each occurrence of the
  reversed half.
\<close>

definition edgeDifferential :: "('p, 's) graph \<Rightarrow> nat \<Rightarrow> int \<Rightarrow> int" where
  "edgeDifferential g e sid =
     (\<Sum>l \<leftarrow> filter (\<lambda>l. shapeId l = sid) (loops g).
        int (count_list (halfEdges l) (forwardHalf e)) - int (count_list (halfEdges l) (reversedHalf e)))"

text \<open>
  A face is solved when it has a winding map; the winding number of a face for a
  shape is what reading its map at the shape identifier gives.
\<close>

definition solvedFace :: "('p, 's) graph \<Rightarrow> nat \<Rightarrow> bool" where
  "solvedFace g f = (windingMap (faceObj g f) \<noteq> None)"

definition windingAt :: "('p, 's) graph \<Rightarrow> nat \<Rightarrow> int \<Rightarrow> number" where
  "windingAt g f sid = (case windingMap (faceObj g f) of None \<Rightarrow> NaN | Some m \<Rightarrow> readWinding m sid)"

text \<open>Edge e lies between solved faces whose winding numbers differ by its differential.\<close>

definition windingConsistent :: "('p, 's) graph \<Rightarrow> nat \<Rightarrow> bool" where
  "windingConsistent g e =
     (case (halfFace g (forwardHalf e), halfFace g (reversedHalf e)) of
        (Some ff, Some rf) \<Rightarrow>
          solvedFace g ff \<and> solvedFace g rf \<and>
          list_all (\<lambda>sid. numSub (windingAt g ff sid) (windingAt g rf sid)
                             = Num (of_int (edgeDifferential g e sid))) (shapeIds g)
      | _ \<Rightarrow> False)"

text \<open>
  Two graphs with the same edges, edge objects, loops, shape identifiers and faces; and
  a graph that keeps, beyond that, every winding map of another.
\<close>

definition sameFrame :: "('p, 's) graph \<Rightarrow> ('p, 's) graph \<Rightarrow> bool" where
  "sameFrame g g' =
     (edges g' = edges g \<and> edgeObj g' = edgeObj g \<and> loops g' = loops g
      \<and> shapeIds g' = shapeIds g \<and> faces g' = faces g \<and> unboundedFace g' = unboundedFace g)"

definition windingExtends :: "('p, 's) graph \<Rightarrow> ('p, 's) graph \<Rightarrow> bool" where
  "windingExtends g g' =
     (sameFrame g g' \<and>
      (\<forall>f m. windingMap (faceObj g f) = Some m \<longrightarrow> windingMap (faceObj g' f) = Some m))"

text \<open>
  The faces that can be reached from the unbounded face by stepping from the face on
  one side of an edge of the graph to the face on its other side.
\<close>

inductive reachableFace :: "('p, 's) graph \<Rightarrow> nat \<Rightarrow> bool" for g :: "('p, 's) graph" where
  unbounded: "reachableFace g (unboundedFace g)"
| toForward: "reachableFace g r \<Longrightarrow> e \<in> set (edges g) \<Longrightarrow>
     halfFace g (reversedHalf e) = Some r \<Longrightarrow> halfFace g (forwardHalf e) = Some f \<Longrightarrow>
     reachableFace g f"
| toReversed: "reachableFace g f \<Longrightarrow> e \<in> set (edges g) \<Longrightarrow>
     halfFace g (forwardHalf e) = Some f \<Longrightarrow> halfFace g (reversedHalf e) = Some r \<Longrightarrow>
     reachableFace g r"

text \<open>
  Both half-edges of every edge have a face, and it is a face of the graph.
\<close>

definition facesAssigned :: "('p, 's) graph \<Rightarrow> bool" where
  "facesAssigned g =
     list_all (\<lambda>e. case (halfFace g (forwardHalf e), halfFace g (reversedHalf e)) of
                      (Some f, Some r) \<Rightarrow> f \<in> set (faces g) \<and> r \<in> set (faces g)
                    | _ \<Rightarrow> False) (edges g)"

text \<open>
  Both faces of the edge are solved, respectively none of them is.
\<close>

definition bothSolved :: "('p, 's) graph \<Rightarrow> nat \<Rightarrow> bool" where
  "bothSolved g e =
     (case (halfFace g (forwardHalf e), halfFace g (reversedHalf e)) of
        (Some f, Some r) \<Rightarrow> solvedFace g f \<and> solvedFace g r
      | _ \<Rightarrow> False)"

definition noneSolved :: "('p, 's) graph \<Rightarrow> nat \<Rightarrow> bool" where
  "noneSolved g e =
     (case (halfFace g (forwardHalf e), halfFace g (reversedHalf e)) of
        (Some f, Some r) \<Rightarrow> \<not> solvedFace g f \<and> \<not> solvedFace g r
      | _ \<Rightarrow> False)"

text \<open>
  What the outer loop of \<^verbatim>\<open>computeWindingMap\<close> maintains, and the quantity that
  decreases with every pass: the number of unsolved faces, then the length of the work
  list.
\<close>

definition unsolvedFaces :: "('p, 's) graph \<Rightarrow> nat set" where
  "unsolvedFaces g = {f \<in> set (faces g). \<not> solvedFace g f}"

definition windingInv :: "('p, 's) graph \<Rightarrow> nat list \<Rightarrow> bool" where
  "windingInv g es =
     (facesAssigned g \<and> (\<forall>f \<in> set (faces g). reachableFace g f)
      \<and> solvedFace g (unboundedFace g)
      \<and> set es \<subseteq> set (edges g) \<and> length es \<le> length (edges g)
      \<and> (\<forall>e \<in> set (edges g). e \<in> set es \<or> bothSolved g e))"

definition windingMeasure :: "('p, 's) graph \<Rightarrow> nat list \<Rightarrow> nat" where
  "windingMeasure g es = card (unsolvedFaces g) * Suc (length (edges g)) + length es"

text \<open>
  A face that lies on a side of some edge of the graph.
\<close>

definition adjacentFace :: "('p, 's) graph \<Rightarrow> nat \<Rightarrow> bool" where
  "adjacentFace g f =
     (\<exists>e \<in> set (edges g). halfFace g (forwardHalf e) = Some f \<or> halfFace g (reversedHalf e) = Some f)"

text \<open>
  No face next to an edge, other than the unbounded face, has a winding map yet.
\<close>

definition freshFaces :: "('p, 's) graph \<Rightarrow> bool" where
  "freshFaces g = (\<forall>f. adjacentFace g f \<and> f \<noteq> unboundedFace g \<longrightarrow> windingMap (faceObj g f) = None)"

text \<open>
  A numbering of the faces by integers, for every shape, that is zero on the unbounded
  face and whose difference across every edge, forward side minus reversed side, is the
  differential of the edge; and a graph whose winding maps, where there are any, are given
  by such a numbering.
\<close>

definition windingPotential :: "('p, 's) graph \<Rightarrow> (nat \<Rightarrow> int \<Rightarrow> int) \<Rightarrow> bool" where
  "windingPotential g W =
     ((\<forall>sid \<in> set (shapeIds g). W (unboundedFace g) sid = 0) \<and>
      (\<forall>e \<in> set (edges g).
         case (halfFace g (forwardHalf e), halfFace g (reversedHalf e)) of
           (Some f, Some r) \<Rightarrow>
             (\<forall>sid \<in> set (shapeIds g). W f sid - W r sid = edgeDifferential g e sid)
         | _ \<Rightarrow> False))"

definition agreesWith :: "('p, 's) graph \<Rightarrow> (nat \<Rightarrow> int \<Rightarrow> int) \<Rightarrow> bool" where
  "agreesWith g W =
     (\<forall>f m. (adjacentFace g f \<or> f = unboundedFace g) \<longrightarrow> windingMap (faceObj g f) = Some m \<longrightarrow>
        (\<forall>sid \<in> set (shapeIds g). m sid = Some (Num (of_int (W f sid)))))"

text \<open>
  A triangle run counter-clockwise by one loop of shape 0: vertices 1 to 3, edges 4 to 6,
  the inner face 7 on the forward side of every edge and the unbounded face 0 on the
  reversed side.
\<close>

definition triangleGraph :: "(vector2, lineSegment) graph" where
  "triangleGraph =
     \<lparr>vertices = [1, 2, 3], edges = [4, 5, 6], shapeIds = [0],
      loops = [\<lparr>shapeId = 0, halfEdges = [forwardHalf 4, forwardHalf 5, forwardHalf 6]\<rparr>],
      faces = [0, 7], unboundedFace = 0,
      vertexObj = (vertexObj emptyGraph)
        (1 := \<lparr>point = (Num 0, Num 0), incidentHalfEdges = [reversedHalf 4, forwardHalf 6]\<rparr>,
         2 := \<lparr>point = (Num 1, Num 0), incidentHalfEdges = [forwardHalf 4, reversedHalf 5]\<rparr>,
         3 := \<lparr>point = (Num 0, Num 1), incidentHalfEdges = [forwardHalf 5, reversedHalf 6]\<rparr>),
      edgeObj = (edgeObj emptyGraph)
        (4 := \<lparr>segment = Line (Num 0, Num 0) (Num 1, Num 0), startVertex = 1, endVertex = 2,
               forwardFace = Some 7, reversedFace = Some 0\<rparr>,
         5 := \<lparr>segment = Line (Num 1, Num 0) (Num 0, Num 1), startVertex = 2, endVertex = 3,
               forwardFace = Some 7, reversedFace = Some 0\<rparr>,
         6 := \<lparr>segment = Line (Num 0, Num 1) (Num 0, Num 0), startVertex = 3, endVertex = 1,
               forwardFace = Some 7, reversedFace = Some 0\<rparr>),
      faceObj = (\<lambda>_. \<lparr>windingMap = None, filled = None\<rparr>),
      nextId = 8\<rparr>"

text \<open>
  The triangle with a loop that runs along edge 4 only: no numbering of the two faces has
  the differences that the three edges ask for.
\<close>

definition brokenLoopGraph :: "(vector2, lineSegment) graph" where
  "brokenLoopGraph = triangleGraph\<lparr>loops := [\<lparr>shapeId = 0, halfEdges = [forwardHalf 4]\<rparr>]\<rparr>"

text \<open>
  The faces of the graph without a filled value.
\<close>

definition nullFaces :: "('p, 's) graph \<Rightarrow> nat set" where
  "nullFaces g = {f \<in> set (faces g). filled (faceObj g f) = None}"

text \<open>The face behind half-edge h has a value, and face f has the negation of it.\<close>

definition hasOpposite :: "('p, 's) graph \<Rightarrow> nat \<Rightarrow> halfEdge \<Rightarrow> bool" where
  "hasOpposite g f h =
     (case halfFace g h of
        Some f' \<Rightarrow> (case filled (faceObj g f') of
                      Some b \<Rightarrow> filled (faceObj g f) = Some (\<not> b)
                    | None \<Rightarrow> False)
      | None \<Rightarrow> False)"

text \<open>Face f has the negation of the value of a face across some edge.\<close>

definition oppositeNeighbour :: "('p, 's) graph \<Rightarrow> nat \<Rightarrow> bool" where
  "oppositeNeighbour g f =
     list_ex (\<lambda>e. halfFace g (forwardHalf e) = Some f \<and> hasOpposite g f (reversedHalf e)
                 \<or> halfFace g (reversedHalf e) = Some f \<and> hasOpposite g f (forwardHalf e))
             (edges g)"

text \<open>
  A graph that keeps every filled value of another; and what the loop of
  \<^verbatim>\<open>fillAlternatingFaces\<close> maintains.
\<close>

definition fillExtends :: "('p, 's) graph \<Rightarrow> ('p, 's) graph \<Rightarrow> bool" where
  "fillExtends g g' =
     (sameFrame g g' \<and>
      (\<forall>f b. filled (faceObj g f) = Some b \<longrightarrow> filled (faceObj g' f) = Some b))"

definition fillInv :: "('p, 's) graph \<times> int \<Rightarrow> bool" where
  "fillInv gc =
     (case gc of (g, c) \<Rightarrow>
        facesAssigned g \<and> c = int (card (nullFaces g))
        \<and> filled (faceObj g (unboundedFace g)) = Some False
        \<and> (\<forall>f \<in> set (faces g). filled (faceObj g f) \<noteq> None \<longrightarrow>
              reachableFace g f \<and> (f = unboundedFace g \<or> oppositeNeighbour g f)))"

text \<open>Both faces of the edge are null, or none is.\<close>

definition sameNullness :: "('p, 's) graph \<Rightarrow> nat \<Rightarrow> bool" where
  "sameNullness g e =
     (case (halfFace g (forwardHalf e), halfFace g (reversedHalf e)) of
        (Some f, Some r) \<Rightarrow> (filled (faceObj g f) = None) = (filled (faceObj g r) = None)
      | _ \<Rightarrow> False)"

text \<open>The triangle without its edges: face 7 is cut off from the unbounded face.\<close>

definition strandedGraph :: "(vector2, lineSegment) graph" where
  "strandedGraph = triangleGraph\<lparr>edges := []\<rparr>"

text \<open>
  The end vertex of edge e that \<^verbatim>\<open>simpleSplit\<close> reuses for a parameter that is not
  internal: the start vertex below one half, the end vertex from there on.
\<close>

definition nearerVertex :: "('p, 's) graph \<Rightarrow> nat \<Rightarrow> real \<Rightarrow> nat" where
  "nearerVertex g e t = (if t < 1 / 2 then startVertex (edgeObj g e) else endVertex (edgeObj g e))"

text \<open>
  Two diagonals of a square that cross in the middle: vertices 1 to 4, edges 5 and 6, and
  an intersection function that reports the crossing for this pair.
\<close>

definition crossIntersect :: "lineSegment \<Rightarrow> lineSegment \<Rightarrow> (vector2 \<times> intersection) list" where
  "crossIntersect k l =
     (if k = Line (Num 0, Num 0) (Num 2, Num 2) \<and> l = Line (Num 0, Num 2) (Num 2, Num 0)
      then [((Num 1, Num 1), \<lparr>aT = 1 / 2, bT = 1 / 2\<rparr>)] else [])"

definition crossGraph :: "(vector2, lineSegment) graph" where
  "crossGraph =
     \<lparr>vertices = [1, 2, 3, 4], edges = [5, 6], shapeIds = [], loops = [],
      faces = [0], unboundedFace = 0,
      vertexObj = (vertexObj emptyGraph)
        (1 := \<lparr>point = (Num 0, Num 0), incidentHalfEdges = [reversedHalf 5]\<rparr>,
         2 := \<lparr>point = (Num 2, Num 2), incidentHalfEdges = [forwardHalf 5]\<rparr>,
         3 := \<lparr>point = (Num 0, Num 2), incidentHalfEdges = [reversedHalf 6]\<rparr>,
         4 := \<lparr>point = (Num 2, Num 0), incidentHalfEdges = [forwardHalf 6]\<rparr>),
      edgeObj = (edgeObj emptyGraph)
        (5 := \<lparr>segment = Line (Num 0, Num 0) (Num 2, Num 2), startVertex = 1, endVertex = 2,
               forwardFace = None, reversedFace = None\<rparr>,
         6 := \<lparr>segment = Line (Num 0, Num 2) (Num 2, Num 0), startVertex = 3, endVertex = 4,
               forwardFace = None, reversedFace = None\<rparr>),
      faceObj = faceObj emptyGraph,
      nextId = 7\<rparr>"

text \<open>
  The overlap parameters as the specification rounds them: a parameter within \<open>1e-5\<close> of
  0 or of 1 becomes that end.
\<close>

definition snapToEnds :: "real \<Rightarrow> real" where
  "snapToEnds t = (if \<bar>t - 0\<bar> < 1 / 100000 then 0 else if \<bar>t - 1\<bar> < 1 / 100000 then 1 else t)"

text \<open>The edge made for a piece that exists, when the next free identifier is \<open>n\<close>.\<close>

definition pieceEdge :: "nat \<Rightarrow> 'a option \<Rightarrow> nat list" where
  "pieceEdge n piece = (case piece of None \<Rightarrow> [] | Some _ \<Rightarrow> [n])"

text \<open>
  Two lines on the x-axis, from 0 to 2 (edge 5, run forwards by the loop of shape 0) and
  from 1 to 3 (edge 6, run backwards by the loop of shape 1), and an overlap function that
  reports their common part from 1 to 2 with parameters a millionth off the ends.
\<close>

definition lineOverlaps :: "lineSegment \<Rightarrow> lineSegment \<Rightarrow> overlap list" where
  "lineOverlaps k l =
     (if k = Line (Num 0, Num 0) (Num 2, Num 0) \<and> l = Line (Num 1, Num 0) (Num 3, Num 0)
      then [\<lparr>t0 = 1 / 2, t1 = 1 - 1 / 1000000, qt0 = 1 / 1000000, qt1 = 1 / 2, overlapA = 1\<rparr>]
      else [])"

definition overlapGraph :: "(vector2, lineSegment) graph" where
  "overlapGraph =
     \<lparr>vertices = [1, 2, 3, 4], edges = [5, 6], shapeIds = [0, 1],
      loops = [\<lparr>shapeId = 0, halfEdges = [forwardHalf 5]\<rparr>,
               \<lparr>shapeId = 1, halfEdges = [reversedHalf 6]\<rparr>],
      faces = [0], unboundedFace = 0,
      vertexObj = (vertexObj emptyGraph)
        (1 := \<lparr>point = (Num 0, Num 0), incidentHalfEdges = [reversedHalf 5]\<rparr>,
         2 := \<lparr>point = (Num 2, Num 0), incidentHalfEdges = [forwardHalf 5]\<rparr>,
         3 := \<lparr>point = (Num 1, Num 0), incidentHalfEdges = [reversedHalf 6]\<rparr>,
         4 := \<lparr>point = (Num 3, Num 0), incidentHalfEdges = [forwardHalf 6]\<rparr>),
      edgeObj = (edgeObj emptyGraph)
        (5 := \<lparr>segment = Line (Num 0, Num 0) (Num 2, Num 0), startVertex = 1, endVertex = 2,
               forwardFace = None, reversedFace = None\<rparr>,
         6 := \<lparr>segment = Line (Num 1, Num 0) (Num 3, Num 0), startVertex = 3, endVertex = 4,
               forwardFace = None, reversedFace = None\<rparr>),
      faceObj = faceObj emptyGraph,
      nextId = 7\<rparr>"

text \<open>The distance between the points of two vertices, and a distance of at least \<open>1e-5\<close>.\<close>

definition vertexDistance :: "('p, 's) env \<Rightarrow> ('p, 's) graph \<Rightarrow> nat \<Rightarrow> nat \<Rightarrow> number" where
  "vertexDistance env g v w = distanceV env (point (vertexObj g v)) (point (vertexObj g w))"

definition atLeastEpsilon :: "number \<Rightarrow> bool" where
  "atLeastEpsilon d =
     (case d of Num x \<Rightarrow> vertexEpsilon \<le> x | PosInfinity \<Rightarrow> True | _ \<Rightarrow> False)"

text \<open>Every vertex of the list is far from every vertex after it in the list.\<close>

fun apartVertices :: "(nat \<Rightarrow> nat \<Rightarrow> bool) \<Rightarrow> nat list \<Rightarrow> bool" where
  "apartVertices far [] = True"
| "apartVertices far (v # ws) = (list_all (far v) ws \<and> apartVertices far ws)"

text \<open>Both end points of edge \<open>e\<close> are among the two vertices.\<close>

definition bothInPair :: "('p, 's) graph \<Rightarrow> nat \<Rightarrow> nat \<Rightarrow> nat \<Rightarrow> bool" where
  "bothInPair g aVertex bVertex e =
     (startVertex (edgeObj g e) \<in> {aVertex, bVertex} \<and> endVertex (edgeObj g e) \<in> {aVertex, bVertex})"

text \<open>
  The point of the merged vertex in the words of the specification: one of the two points
  when their distance is 0, their midpoint otherwise.
\<close>

definition mergedPoint :: "('p, 's) env \<Rightarrow> 'p \<Rightarrow> 'p \<Rightarrow> 'p" where
  "mergedPoint env p q = (if distanceV env p q = Num 0 then p else averageV env p q)"

text \<open>Two vertices without edges, one of them with a coordinate that is not a number.\<close>

definition nanGraph :: "(vector2, lineSegment) graph" where
  "nanGraph =
     emptyGraph\<lparr>vertices := [1, 2],
       vertexObj := (vertexObj emptyGraph)
         (1 := \<lparr>point = (NaN, Num 0), incidentHalfEdges = []\<rparr>,
          2 := \<lparr>point = (Num 0, Num 0), incidentHalfEdges = []\<rparr>),
       nextId := 3\<rparr>"

text \<open>
  Three vertices on the x-axis at 0, at a millionth and at 1, an edge from the first to
  the second (edge 4) and one from the second to the third (edge 5), and a loop through
  both.
\<close>

definition gapGraph :: "(vector2, lineSegment) graph" where
  "gapGraph =
     \<lparr>vertices = [1, 2, 3], edges = [4, 5], shapeIds = [0],
      loops = [\<lparr>shapeId = 0, halfEdges = [forwardHalf 4, forwardHalf 5]\<rparr>],
      faces = [0], unboundedFace = 0,
      vertexObj = (vertexObj emptyGraph)
        (1 := \<lparr>point = (Num 0, Num 0), incidentHalfEdges = [reversedHalf 4]\<rparr>,
         2 := \<lparr>point = (Num (1 / 1000000), Num 0),
               incidentHalfEdges = [forwardHalf 4, reversedHalf 5]\<rparr>,
         3 := \<lparr>point = (Num 1, Num 0), incidentHalfEdges = [forwardHalf 5]\<rparr>),
      edgeObj = (edgeObj emptyGraph)
        (4 := \<lparr>segment = Line (Num 0, Num 0) (Num (1 / 1000000), Num 0), startVertex = 1,
               endVertex = 2, forwardFace = None, reversedFace = None\<rparr>,
         5 := \<lparr>segment = Line (Num (1 / 1000000), Num 0) (Num 1, Num 0), startVertex = 2,
               endVertex = 3, forwardFace = None, reversedFace = None\<rparr>),
      faceObj = faceObj emptyGraph,
      nextId = 6\<rparr>"

section \<open>Properties\<close>

subsection \<open>Connecting edges\<close>

lemma set_halvesOf: "set (halvesOf g) = {h. fst h \<in> set (edges g)}"
  by (auto simp: halvesOf_def forwardHalf_def reversedHalf_def)

lemma edgeObj_addEdge [simp]: "edgeObj (addEdge e g) = edgeObj g"
  by (simp add: addEdge_def pushIncident_def)

lemma edges_addEdge [simp]: "edges (addEdge e g) = edges g @ [e]"
  by (simp add: addEdge_def pushIncident_def)

lemma frame_addEdge [simp]:
  "nextId (addEdge e g) = nextId g" "vertices (addEdge e g) = vertices g"
  "loops (addEdge e g) = loops g" "shapeIds (addEdge e g) = shapeIds g"
  "faces (addEdge e g) = faces g" "faceObj (addEdge e g) = faceObj g"
  "unboundedFace (addEdge e g) = unboundedFace g"
  "point (vertexObj (addEdge e g) v) = point (vertexObj g v)"
  by (simp_all add: addEdge_def pushIncident_def)

lemma incident_addEdge:
  "incidentHalfEdges (vertexObj (addEdge e g) v) =
     incidentHalfEdges (vertexObj g v)
       @ (if v = startVertex (edgeObj g e) then [reversedHalf e] else [])
       @ (if v = endVertex (edgeObj g e) then [forwardHalf e] else [])"
  by (simp add: addEdge_def pushIncident_def)

lemma edgeObj_removeEdge [simp]: "edgeObj (removeEdge e g) = edgeObj g"
  by (simp add: removeEdge_def removeIncident_def)

lemma edges_removeEdge [simp]: "edges (removeEdge e g) = remove1 e (edges g)"
  by (simp add: removeEdge_def removeIncident_def)

lemma frame_removeEdge [simp]:
  "nextId (removeEdge e g) = nextId g" "vertices (removeEdge e g) = vertices g"
  "loops (removeEdge e g) = loops g" "shapeIds (removeEdge e g) = shapeIds g"
  "faces (removeEdge e g) = faces g" "faceObj (removeEdge e g) = faceObj g"
  "unboundedFace (removeEdge e g) = unboundedFace g"
  "point (vertexObj (removeEdge e g) v) = point (vertexObj g v)"
  by (simp_all add: removeEdge_def removeIncident_def)

lemma incident_removeEdge:
  "incidentHalfEdges (vertexObj (removeEdge e g) v) =
     (if v = endVertex (edgeObj g e) then remove1 (forwardHalf e) else id)
       ((if v = startVertex (edgeObj g e) then remove1 (reversedHalf e) else id)
          (incidentHalfEdges (vertexObj g v)))"
  by (simp add: removeEdge_def removeIncident_def)

lemma incidentByEnd_iff:
  "incidentByEnd g v \<longleftrightarrow>
     distinct (incidentHalfEdges (vertexObj g v)) \<and>
     (\<forall>e r. (e, r) \<in> set (incidentHalfEdges (vertexObj g v)) \<longleftrightarrow>
        e \<in> set (edges g) \<and> (if r then startVertex (edgeObj g e) else endVertex (edgeObj g e)) = v)"
  unfolding incidentByEnd_def set_filter set_halvesOf halfEnd_def
  by (auto simp: set_eq_iff)

lemma incidentByEnd_addEdge:
  assumes "e \<notin> set (edges g)" and "incidentByEnd g v"
  shows "incidentByEnd (addEdge e g) v"
proof -
  let ?inc = "incidentHalfEdges (vertexObj g v)"
  let ?A = "if v = startVertex (edgeObj g e) then [(e, True)] else []"
  let ?B = "if v = endVertex (edgeObj g e) then [(e, False)] else []"
  have d: "distinct ?inc"
    and m: "\<And>e' r. (e', r) \<in> set ?inc \<longleftrightarrow>
        e' \<in> set (edges g) \<and> (if r then startVertex (edgeObj g e') else endVertex (edgeObj g e')) = v"
    using assms(2) unfolding incidentByEnd_iff by blast+
  have n: "(e, r) \<notin> set ?inc" for r
    using m assms(1) by blast
  have dist: "distinct (?inc @ ?A @ ?B)"
    by (cases "v = startVertex (edgeObj g e)"; cases "v = endVertex (edgeObj g e)")
       (use d n in simp_all)
  have mem: "(e', r) \<in> set (?inc @ ?A @ ?B) \<longleftrightarrow>
        e' \<in> set (edges g @ [e]) \<and> (if r then startVertex (edgeObj g e') else endVertex (edgeObj g e')) = v" for e' r
  proof (cases "e' = e")
    case True
    then show ?thesis using n[of r] by (cases r) auto
  next
    case False
    then show ?thesis using m[of e' r] by simp
  qed
  show ?thesis
    unfolding incidentByEnd_iff incident_addEdge edgeObj_addEdge edges_addEdge
      forwardHalf_def reversedHalf_def
    using dist mem by blast
qed

lemma incidentByEnd_removeEdge:
  assumes "distinct (edges g)" and "incidentByEnd g v"
  shows "incidentByEnd (removeEdge e g) v"
proof -
  let ?inc = "incidentHalfEdges (vertexObj g v)"
  let ?f = "if v = endVertex (edgeObj g e) then remove1 (e, False) else id"
  let ?h = "if v = startVertex (edgeObj g e) then remove1 (e, True) else id"
  have d: "distinct ?inc"
    and m: "\<And>e' r. (e', r) \<in> set ?inc \<longleftrightarrow>
        e' \<in> set (edges g) \<and> (if r then startVertex (edgeObj g e') else endVertex (edgeObj g e')) = v"
    using assms(2) unfolding incidentByEnd_iff by blast+
  have dist: "distinct (?f (?h ?inc))"
    by (cases "v = startVertex (edgeObj g e)"; cases "v = endVertex (edgeObj g e)")
       (use d in simp_all)
  have sf: "set (?f (?h ?inc)) = set ?inc
      - (if v = endVertex (edgeObj g e) then {(e, False)} else {})
      - (if v = startVertex (edgeObj g e) then {(e, True)} else {})"
    using d by (auto simp: set_remove1_eq)
  have mem: "(e', r) \<in> set (?f (?h ?inc)) \<longleftrightarrow>
        e' \<in> set (remove1 e (edges g)) \<and> (if r then startVertex (edgeObj g e') else endVertex (edgeObj g e')) = v" for e' r
  proof (cases "e' = e")
    case True
    then show ?thesis unfolding sf using assms(1) m[of e r] by (cases r) (auto split: if_splits)
  next
    case False
    then show ?thesis unfolding sf using assms(1) m[of e' r] by (auto split: if_splits)
  qed
  show ?thesis
    unfolding incidentByEnd_iff incident_removeEdge edgeObj_removeEdge edges_removeEdge
      forwardHalf_def reversedHalf_def
    using dist mem by blast
qed

subsection \<open>Ingestion\<close>

lemma subpathSegments_eq:
  "subpathSegments env sp =
     (case points sp of
        [] \<Rightarrow> Inl TypeError
      | p # ps \<Rightarrow> Inr (segments sp @ (if equalsV env p (last (p # ps)) then []
                                        else [newLine env (last (p # ps)) p])))"
  by (simp add: subpathSegments_def getClosingSegment_def hasClosingSegment_def split: list.splits)

lemma joinVertices_Cons:
  "joinVertices env segs (index # rest) g =
     (if assertEnabled env \<and> inaccurateJoin env segs index then Inl AssertionError
      else (case joinVertices env segs rest (snd (createVertex (joinPoint env segs index) g)) of
              Inl e \<Rightarrow> Inl e
            | Inr (vs, g2) \<Rightarrow> Inr (nextId g # vs, g2)))"
  by (simp add: Let_def inaccurateJoin_def joinPoint_def createVertex_def)

lemma joinVertices_Inl:
  "joinVertices env segs is g = Inl err \<longleftrightarrow>
     err = AssertionError \<and> assertEnabled env \<and> (\<exists>i \<in> set is. inaccurateJoin env segs i)"
proof (induction "is" arbitrary: g)
  case Nil
  then show ?case by simp
next
  case (Cons index rest)
  show ?case
  proof (cases "assertEnabled env \<and> inaccurateJoin env segs index")
    case True
    then show ?thesis unfolding joinVertices_Cons by auto
  next
    case False
    have "joinVertices env segs (index # rest) g = Inl err \<longleftrightarrow>
          joinVertices env segs rest (snd (createVertex (joinPoint env segs index) g)) = Inl err"
      unfolding joinVertices_Cons using False by (auto split: sum.splits prod.splits)
    then show ?thesis unfolding Cons.IH using False by auto
  qed
qed

lemma joinVertices_Inr:
  "joinVertices env segs is g = Inr (vs, g') \<Longrightarrow>
     vs = [nextId g ..< nextId g + length is] \<and> nextId g' = nextId g + length is
     \<and> edges g' = edges g \<and> edgeObj g' = edgeObj g \<and> vertices g' = vertices g
     \<and> loops g' = loops g \<and> shapeIds g' = shapeIds g"
proof (induction "is" arbitrary: g vs g')
  case Nil
  then show ?case by simp
next
  case (Cons index rest)
  define g0 where "g0 = snd (createVertex (joinPoint env segs index) g)"
  from Cons.prems obtain vs1 where
    r: "joinVertices env segs rest g0 = Inr (vs1, g')"
    and vs: "vs = nextId g # vs1"
    unfolding joinVertices_Cons g0_def by (auto split: sum.splits prod.splits if_splits)
  have g0: "nextId g0 = Suc (nextId g)" "edges g0 = edges g" "edgeObj g0 = edgeObj g"
    "vertices g0 = vertices g" "loops g0 = loops g" "shapeIds g0 = shapeIds g"
    by (simp_all add: g0_def createVertex_def)
  from Cons.IH[OF r] show ?case
    using vs g0 by (simp add: upt_conv_Cons del: upt_Suc)
qed

lemma subpathEdges_result:
  "subpathEdges segs vs is g = (hs, g') \<Longrightarrow>
     edges g' = edges g @ [nextId g ..< nextId g + length is]
     \<and> hs = map forwardHalf [nextId g ..< nextId g + length is]
     \<and> nextId g' = nextId g + length is
     \<and> (\<forall>k < length is. segment (edgeObj g' (nextId g + k)) = segs ! (is ! k))
     \<and> (\<forall>e < nextId g. edgeObj g' e = edgeObj g e)
     \<and> vertices g' = vertices g \<and> loops g' = loops g \<and> shapeIds g' = shapeIds g"
proof (induction "is" arbitrary: g hs g')
  case Nil
  then show ?case by simp
next
  case (Cons index rest)
  define g1 where "g1 = addEdge (nextId g) (snd (createEdge (segs ! index) (vs ! index)
      (vs ! (if index + 1 = length segs then 0 else index + 1)) g))"
  from Cons.prems obtain hs1 where
    r: "subpathEdges segs vs rest g1 = (hs1, g')" and hs: "hs = forwardHalf (nextId g) # hs1"
    by (auto simp: Let_def createEdge_def g1_def split: prod.splits)
  have g1: "edges g1 = edges g @ [nextId g]" "nextId g1 = Suc (nextId g)"
    "segment (edgeObj g1 (nextId g)) = segs ! index"
    "\<And>e. e < nextId g \<Longrightarrow> edgeObj g1 e = edgeObj g e"
    "vertices g1 = vertices g" "loops g1 = loops g" "shapeIds g1 = shapeIds g"
    by (simp_all add: g1_def createEdge_def)
  note ih = Cons.IH[OF r]
  have seg: "segment (edgeObj g' (nextId g + k)) = segs ! ((index # rest) ! k)"
    if "k < length (index # rest)" for k
  proof (cases k)
    case 0
    then show ?thesis using ih g1 by (simp del: upt_Suc)
  next
    case (Suc j)
    then show ?thesis using ih g1 that by (simp del: upt_Suc)
  qed
  show ?case
    using ih g1 hs seg by (simp add: upt_conv_Cons del: upt_Suc)
qed

lemma addSubpath_Inr:
  assumes "addSubpath env sid sp g = Inr g'" and "segments sp \<noteq> []"
  obtains segs where "subpathSegments env sp = Inr segs"
    and "edges g' = edges g @ [nextId g + length segs ..< nextId g + length segs + length segs]"
    and "\<forall>k < length segs. segment (edgeObj g' (nextId g + length segs + k)) = segs ! k"
    and "vertices g' = vertices g @ [nextId g ..< nextId g + length segs]"
    and "loops g' = loops g @ [\<lparr>shapeId = sid, halfEdges =
            map forwardHalf [nextId g + length segs ..< nextId g + length segs + length segs]\<rparr>]"
    and "shapeIds g' = shapeIds (addShapeId sid g)"
proof -
  let ?g0 = "addShapeId sid g"
  from assms obtain segs vs g1 hs g2 where
    s: "subpathSegments env sp = Inr segs"
    and j: "joinVertices env segs [0..<length segs] ?g0 = Inr (vs, g1)"
    and e: "subpathEdges segs vs [0..<length segs] g1 = (hs, g2)"
    and g': "g' = g2\<lparr>loops := loops g2 @ [\<lparr>shapeId = sid, halfEdges = hs\<rparr>],
                      vertices := vertices g2 @ vs\<rparr>"
    by (auto simp: addSubpath_def Let_def split: sum.splits prod.splits)
  have g0: "nextId ?g0 = nextId g" "edges ?g0 = edges g" "vertices ?g0 = vertices g"
    "loops ?g0 = loops g"
    by (simp_all add: addShapeId_def)
  note jr = joinVertices_Inr[OF j] and er = subpathEdges_result[OF e]
  show ?thesis
  proof (rule that[OF s])
    show "edges g' = edges g @ [nextId g + length segs ..< nextId g + length segs + length segs]"
      using jr er g' g0 by simp
    show "\<forall>k < length segs. segment (edgeObj g' (nextId g + length segs + k)) = segs ! k"
      using jr er g' g0 by simp
    show "vertices g' = vertices g @ [nextId g ..< nextId g + length segs]"
      using jr er g' g0 by simp
    show "loops g' = loops g @ [\<lparr>shapeId = sid, halfEdges =
            map forwardHalf [nextId g + length segs ..< nextId g + length segs + length segs]\<rparr>]"
      using jr er g' g0 by simp
    show "shapeIds g' = shapeIds (addShapeId sid g)"
      using jr er g' by simp
  qed
qed

lemmas run_ingest =
  addSubpath_def subpathSegments_def hasClosingSegment_def getClosingSegment_def addShapeId_def
  createVertex_def createEdge_def addEdge_def pushIncident_def Let_def
  quietEnv_def planeEnv_def emptyGraph_def equalsVector2_def lineStart_def lineEnd_def
  forwardHalf_def reversedHalf_def

lemma singleEdge_connected: "singleEdgeGraph = addEdge 3 unconnectedEdgeGraph"
  by (simp add: singleEdgeGraph_def unconnectedEdgeGraph_def run_ingest emptyGraph_def numeral_3_eq_3)

lemma unconnected_incident:
  "distinct (edges unconnectedEdgeGraph)" "\<forall>v. incidentByEnd unconnectedEdgeGraph v"
  "3 \<notin> set (edges unconnectedEdgeGraph)"
  by (simp_all add: unconnectedEdgeGraph_def run_ingest emptyGraph_def incidentByEnd_def halvesOf_def)

subsection \<open>Winding maps\<close>

lemma inner_differential:
  "foldl (\<lambda>d h. if h = forwardHalf e then d + 1 else if h = reversedHalf e then d - 1 else d) d0 hs
     = d0 + int (count_list hs (forwardHalf e)) - int (count_list hs (reversedHalf e))"
  by (induction hs arbitrary: d0) (auto simp: forwardHalf_def reversedHalf_def)

lemma outer_differential:
  "foldl (\<lambda>differential l.
              if shapeId l \<noteq> sid then differential
              else foldl (\<lambda>d h. if h = forwardHalf e then d + 1
                                  else if h = reversedHalf e then d - 1 else d)
                         differential (halfEdges l)) d0 ls
     = d0 + (\<Sum>l \<leftarrow> filter (\<lambda>l. shapeId l = sid) ls.
        int (count_list (halfEdges l) (forwardHalf e)) - int (count_list (halfEdges l) (reversedHalf e)))"
  by (induction ls arbitrary: d0) (simp_all add: inner_differential)

lemma computeDifferential_eq: "computeDifferential g e sid = edgeDifferential g e sid"
  by (simp add: computeDifferential_def edgeDifferential_def outer_differential)

lemma outsideMap_eq: "outsideMap ids = (\<lambda>sid. if sid \<in> set ids then Some (Num 0) else None)"
proof -
  have "foldl (\<lambda>m sid. m(sid \<mapsto> Num 0)) m0 ids
        = (\<lambda>sid. if sid \<in> set ids then Some (Num 0) else m0 sid)" for m0 :: "int \<rightharpoonup> number"
    by (induction ids arbitrary: m0) (auto simp: fun_eq_iff)
  then show ?thesis by (simp add: outsideMap_def)
qed

lemma solvedAcross_eq:
  "solvedAcross g e m b = (\<lambda>sid. if sid \<in> set (shapeIds g)
      then Some (numAdd (readWinding m sid)
                  (Num (of_int (computeDifferential g e sid * (if b then - 1 else 1)))))
      else None)"
proof -
  have h: "foldl (\<lambda>m' sid. m'(sid \<mapsto> F sid)) m0 ids
        = (\<lambda>sid. if sid \<in> set ids then Some (F sid) else m0 sid)"
    for m0 :: "int \<rightharpoonup> number" and F ids
    by (induction ids arbitrary: m0) (auto simp: fun_eq_iff)
  show ?thesis unfolding solvedAcross_def h by simp
qed

lemma sameFrame_refl [simp]: "sameFrame g g"
  by (simp add: sameFrame_def)

lemma sameFrame_trans: "sameFrame g g1 \<Longrightarrow> sameFrame g1 g2 \<Longrightarrow> sameFrame g g2"
  by (simp add: sameFrame_def)

lemma sameFrame_halfFace: "sameFrame g g' \<Longrightarrow> halfFace g' h = halfFace g h"
  by (simp add: sameFrame_def halfFace_def)

lemma sameFrame_differential: "sameFrame g g' \<Longrightarrow> edgeDifferential g' e sid = edgeDifferential g e sid"
  by (simp add: sameFrame_def edgeDifferential_def)

lemma windingExtends_refl [simp]: "windingExtends g g"
  by (simp add: windingExtends_def)

lemma windingExtends_trans:
  "windingExtends g g1 \<Longrightarrow> windingExtends g1 g2 \<Longrightarrow> windingExtends g g2"
  unfolding windingExtends_def using sameFrame_trans by blast

lemma sameFrame_setWindingMap [simp]: "sameFrame g (setWindingMap f m g)"
  by (simp add: sameFrame_def setWindingMap_def)

lemma windingMap_setWindingMap:
  "windingMap (faceObj (setWindingMap f m g) f') = (if f' = f then Some m else windingMap (faceObj g f'))"
  by (simp add: setWindingMap_def)

lemma windingExtends_set:
  "windingMap (faceObj g f) = None \<Longrightarrow> windingExtends g (setWindingMap f m g)"
  by (auto simp: windingExtends_def windingMap_setWindingMap)

lemma windingStep_InrE:
  assumes "windingStep env g e = Inr (b, g')"
  obtains ff rf where
    "halfFace g (forwardHalf e) = Some ff" and "halfFace g (reversedHalf e) = Some rf"
    and "assertEnabled env \<Longrightarrow> ff \<noteq> rf"
    and "case (windingMap (faceObj g ff), windingMap (faceObj g rf)) of
           (Some mf, Some mr) \<Rightarrow> b \<and> g' = g \<and>
              (assertEnabled env \<longrightarrow>
                 list_all (\<lambda>sid. numEq (numSub (readWinding mf sid) (readWinding mr sid))
                                    (Num (of_int (computeDifferential g e sid)))) (shapeIds g))
         | (None, None) \<Rightarrow> \<not> b \<and> g' = g
         | (Some mf, None) \<Rightarrow> \<not> b \<and> g' = setWindingMap rf (solvedAcross g e mf True) g
         | (None, Some mr) \<Rightarrow> \<not> b \<and> g' = setWindingMap ff (solvedAcross g e mr False) g"
proof (cases "halfFace g (forwardHalf e)")
  case None
  then show ?thesis using assms by (simp add: windingStep_def split: if_splits)
next
  case ff: (Some ff)
  show ?thesis
  proof (cases "halfFace g (reversedHalf e)")
    case None
    then show ?thesis using assms ff by (simp add: windingStep_def split: if_splits)
  next
    case rf: (Some rf)
    have ne: "ff \<noteq> rf" if "assertEnabled env"
      using assms ff rf that by (auto simp add: windingStep_def)
    show ?thesis
    proof (rule that[OF ff rf ne])
      show "case (windingMap (faceObj g ff), windingMap (faceObj g rf)) of
           (Some mf, Some mr) \<Rightarrow> b \<and> g' = g \<and>
              (assertEnabled env \<longrightarrow>
                 list_all (\<lambda>sid. numEq (numSub (readWinding mf sid) (readWinding mr sid))
                                    (Num (of_int (computeDifferential g e sid)))) (shapeIds g))
         | (None, None) \<Rightarrow> \<not> b \<and> g' = g
         | (Some mf, None) \<Rightarrow> \<not> b \<and> g' = setWindingMap rf (solvedAcross g e mf True) g
         | (None, Some mr) \<Rightarrow> \<not> b \<and> g' = setWindingMap ff (solvedAcross g e mr False) g"
        by (cases "windingMap (faceObj g ff)"; cases "windingMap (faceObj g rf)")
           (use assms ff rf in \<open>auto simp add: windingStep_def split: if_splits\<close>)
    qed
  qed
qed

lemma windingStep_extends:
  assumes "windingStep env g e = Inr (b, g')"
  shows "windingExtends g g'"
proof -
  from assms obtain ff rf where
    c: "case (windingMap (faceObj g ff), windingMap (faceObj g rf)) of
           (Some mf, Some mr) \<Rightarrow> b \<and> g' = g \<and>
              (assertEnabled env \<longrightarrow>
                 list_all (\<lambda>sid. numEq (numSub (readWinding mf sid) (readWinding mr sid))
                                    (Num (of_int (computeDifferential g e sid)))) (shapeIds g))
         | (None, None) \<Rightarrow> \<not> b \<and> g' = g
         | (Some mf, None) \<Rightarrow> \<not> b \<and> g' = setWindingMap rf (solvedAcross g e mf True) g
         | (None, Some mr) \<Rightarrow> \<not> b \<and> g' = setWindingMap ff (solvedAcross g e mr False) g"
    by (rule windingStep_InrE)
  show ?thesis
    by (cases "windingMap (faceObj g ff)"; cases "windingMap (faceObj g rf)")
       (use c in \<open>auto simp add: windingExtends_set\<close>)
qed

lemma windingConsistent_mono:
  assumes "windingExtends g g'" and "windingConsistent g e"
  shows "windingConsistent g' e"
proof -
  from assms(2) obtain ff rf mf mr where
    h: "halfFace g (forwardHalf e) = Some ff" "halfFace g (reversedHalf e) = Some rf"
    and m: "windingMap (faceObj g ff) = Some mf" "windingMap (faceObj g rf) = Some mr"
    and c: "list_all (\<lambda>sid. numSub (windingAt g ff sid) (windingAt g rf sid)
                             = Num (of_int (edgeDifferential g e sid))) (shapeIds g)"
    by (auto simp: windingConsistent_def solvedFace_def split: option.splits)
  have f: "sameFrame g g'" and m': "windingMap (faceObj g' ff) = Some mf" "windingMap (faceObj g' rf) = Some mr"
    using assms(1) m by (auto simp: windingExtends_def)
  have w: "windingAt g' ff = windingAt g ff" "windingAt g' rf = windingAt g rf"
    using m m' by (simp_all add: windingAt_def fun_eq_iff)
  show ?thesis
    using h c m' f w
    by (simp add: windingConsistent_def solvedFace_def sameFrame_halfFace sameFrame_differential)
       (simp add: sameFrame_def)
qed

lemma numEq_Num [simp]: "numEq u (Num d) \<longleftrightarrow> u = Num d"
  by (cases u) auto

lemma windingStep_spliced:
  assumes "windingStep env g e = Inr (True, g')" and "assertEnabled env"
  shows "windingConsistent g' e"
proof -
  from assms(1) obtain ff rf where
    h: "halfFace g (forwardHalf e) = Some ff" "halfFace g (reversedHalf e) = Some rf"
    and c: "case (windingMap (faceObj g ff), windingMap (faceObj g rf)) of
           (Some mf, Some mr) \<Rightarrow> True \<and> g' = g \<and>
              (assertEnabled env \<longrightarrow>
                 list_all (\<lambda>sid. numEq (numSub (readWinding mf sid) (readWinding mr sid))
                                    (Num (of_int (computeDifferential g e sid)))) (shapeIds g))
         | (None, None) \<Rightarrow> \<not> True \<and> g' = g
         | (Some mf, None) \<Rightarrow> \<not> True \<and> g' = setWindingMap rf (solvedAcross g e mf True) g
         | (None, Some mr) \<Rightarrow> \<not> True \<and> g' = setWindingMap ff (solvedAcross g e mr False) g"
    by (rule windingStep_InrE)
  show ?thesis
    by (cases "windingMap (faceObj g ff)"; cases "windingMap (faceObj g rf)")
       (use c h assms(2) in
         \<open>simp_all add: windingConsistent_def solvedFace_def windingAt_def computeDifferential_eq\<close>)
qed

lemma windingPass_sound:
  "windingPass env es g = Inr (kept, g') \<Longrightarrow>
     windingExtends g g' \<and> set kept \<subseteq> set es \<and>
     (assertEnabled env \<longrightarrow> (\<forall>e \<in> set es. e \<in> set kept \<or> windingConsistent g' e))"
proof (induction es arbitrary: g kept g')
  case Nil
  then show ?case by simp
next
  case (Cons e es)
  from Cons.prems obtain b g1 kept1 where
    s: "windingStep env g e = Inr (b, g1)"
    and p: "windingPass env es g1 = Inr (kept1, g')"
    and k: "kept = (if b then kept1 else e # kept1)"
    by (auto split: sum.splits prod.splits)
  note ih = Cons.IH[OF p]
  have x: "windingExtends g g'"
    using windingStep_extends[OF s] ih windingExtends_trans by blast
  have c: "e \<in> set kept \<or> windingConsistent g' e" if a: "assertEnabled env"
  proof (cases b)
    case True
    then have "windingConsistent g1 e" using windingStep_spliced[of env g e g1] s a by simp
    then show ?thesis using windingConsistent_mono ih by blast
  next
    case False
    then show ?thesis using k by simp
  qed
  have sub: "set kept \<subseteq> set (e # es)" using ih k by (auto split: if_splits)
  have "e' \<in> set kept \<or> windingConsistent g' e'" if "assertEnabled env" "e' \<in> set (e # es)" for e'
  proof (cases "e' = e")
    case True
    then show ?thesis using c that by simp
  next
    case False
    then have "e' \<in> set kept1 \<or> windingConsistent g' e'" using ih that by simp
    then show ?thesis using k by (auto split: if_splits)
  qed
  then show ?case using x sub by blast
qed

lemma windingLoop_sound_aux:
  "windingLoop env es g = Some r \<Longrightarrow>
     (\<forall>g'. r = Inr g' \<longrightarrow>
        windingExtends g g' \<and> (assertEnabled env \<longrightarrow> (\<forall>e \<in> set es. windingConsistent g' e)))"
proof (induction env es g r rule: windingLoop.raw_induct[rotated -1, consumes 1, case_names step])
  case (step loop env es g r)
  show ?case
  proof (cases "es = []")
    case True
    then show ?thesis using step(2) by auto
  next
    case False
    show ?thesis
    proof (intro allI impI)
      fix g' assume r: "r = Inr g'"
      with step(2) False obtain kept g1 where
        p: "windingPass env (rev es) g = Inr (kept, g1)"
        and l: "loop env (rev kept) g1 = Some (Inr g')"
        by (auto split: sum.splits prod.splits)
      have ih: "windingExtends g1 g'" "assertEnabled env \<Longrightarrow> e \<in> set kept \<Longrightarrow> windingConsistent g' e" for e
        using step(1)[OF l] by simp_all
      note ps = windingPass_sound[OF p]
      have "windingExtends g g'" using ih ps windingExtends_trans by blast
      moreover have "windingConsistent g' e" if "assertEnabled env" "e \<in> set es" for e
      proof -
        from ps that have "e \<in> set kept \<or> windingConsistent g1 e" by simp
        then show ?thesis using ih that windingConsistent_mono by blast
      qed
      ultimately show "windingExtends g g' \<and> (assertEnabled env \<longrightarrow> (\<forall>e \<in> set es. windingConsistent g' e))"
        by blast
    qed
  qed
qed

lemma facesAssignedD:
  assumes "facesAssigned g" and "e \<in> set (edges g)"
  obtains f r where "halfFace g (forwardHalf e) = Some f" "halfFace g (reversedHalf e) = Some r"
    "f \<in> set (faces g)" "r \<in> set (faces g)"
proof -
  from assms have "case (halfFace g (forwardHalf e), halfFace g (reversedHalf e)) of
                      (Some f, Some r) \<Rightarrow> f \<in> set (faces g) \<and> r \<in> set (faces g)
                    | _ \<Rightarrow> False"
    by (simp add: facesAssigned_def list_all_iff)
  then show ?thesis
    by (cases "halfFace g (forwardHalf e)"; cases "halfFace g (reversedHalf e)")
       (use that in auto)
qed

lemma sameFrame_facesAssigned:
  assumes "sameFrame g g'"
  shows "facesAssigned g' = facesAssigned g"
proof -
  have h: "halfFace g' = halfFace g" "faces g' = faces g" "edges g' = edges g"
    using assms by (auto simp: sameFrame_def halfFace_def fun_eq_iff)
  show ?thesis unfolding facesAssigned_def h ..
qed

lemma sameFrame_reachable_imp:
  assumes "sameFrame g g'" and "reachableFace g f"
  shows "reachableFace g' f"
  using assms(2)
proof (induction rule: reachableFace.induct)
  case unbounded
  have "unboundedFace g = unboundedFace g'" using assms(1) by (simp add: sameFrame_def)
  then show ?case using reachableFace.unbounded[of g'] by simp
next
  case (toForward r e f)
  then show ?case
    using assms(1) reachableFace.toForward[of g' r e f]
    by (simp add: sameFrame_halfFace) (simp add: sameFrame_def)
next
  case (toReversed f e r)
  then show ?case
    using assms(1) reachableFace.toReversed[of g' f e r]
    by (simp add: sameFrame_halfFace) (simp add: sameFrame_def)
qed

lemma sameFrame_sym: "sameFrame g g' \<Longrightarrow> sameFrame g' g"
  by (simp add: sameFrame_def)

lemma sameFrame_reachable: "sameFrame g g' \<Longrightarrow> reachableFace g' f = reachableFace g f"
  using sameFrame_reachable_imp sameFrame_sym by blast

lemma extends_solved: "windingExtends g g' \<Longrightarrow> solvedFace g f \<Longrightarrow> solvedFace g' f"
  by (auto simp: windingExtends_def solvedFace_def)

lemma extends_bothSolved: "windingExtends g g' \<Longrightarrow> bothSolved g e \<Longrightarrow> bothSolved g' e"
  unfolding bothSolved_def
  by (auto simp: windingExtends_def sameFrame_halfFace solvedFace_def split: option.splits)

lemma extends_unsolved: "windingExtends g g' \<Longrightarrow> unsolvedFaces g' \<subseteq> unsolvedFaces g"
  using extends_solved[of g g'] by (auto simp: unsolvedFaces_def windingExtends_def sameFrame_def)

text \<open>One step: the edge is spliced when both faces are solved, a face is newly solved when
  exactly one was, and nothing happens when none was.\<close>

lemma windingStep_progress:
  assumes "windingStep env g e = Inr (b, g')" and "facesAssigned g" and "e \<in> set (edges g)"
  shows "(b \<and> g' = g \<and> bothSolved g e)
       \<or> (\<not> b \<and> g' = g \<and> noneSolved g e)
       \<or> (\<not> b \<and> bothSolved g' e \<and> (\<exists>f \<in> unsolvedFaces g. solvedFace g' f))"
proof -
  from assms(1) obtain ff rf where
    h: "halfFace g (forwardHalf e) = Some ff" "halfFace g (reversedHalf e) = Some rf"
    and c: "case (windingMap (faceObj g ff), windingMap (faceObj g rf)) of
           (Some mf, Some mr) \<Rightarrow> b \<and> g' = g \<and>
              (assertEnabled env \<longrightarrow>
                 list_all (\<lambda>sid. numEq (numSub (readWinding mf sid) (readWinding mr sid))
                                    (Num (of_int (computeDifferential g e sid)))) (shapeIds g))
         | (None, None) \<Rightarrow> \<not> b \<and> g' = g
         | (Some mf, None) \<Rightarrow> \<not> b \<and> g' = setWindingMap rf (solvedAcross g e mf True) g
         | (None, Some mr) \<Rightarrow> \<not> b \<and> g' = setWindingMap ff (solvedAcross g e mr False) g"
    by (rule windingStep_InrE)
  from facesAssignedD[OF assms(2,3)] h have fin: "ff \<in> set (faces g)" "rf \<in> set (faces g)"
    by auto
  have hf: "halfFace (setWindingMap x m g) k = halfFace g k" for x m k
    by (simp add: sameFrame_halfFace)
  show ?thesis
    by (cases "windingMap (faceObj g ff)"; cases "windingMap (faceObj g rf)")
       (use c h fin in \<open>auto simp add: bothSolved_def noneSolved_def solvedFace_def
           unsolvedFaces_def hf windingMap_setWindingMap\<close>)
qed

lemma windingStep_Inl:
  assumes "windingStep env g e = Inl err" and "facesAssigned g" and "e \<in> set (edges g)"
  shows "assertEnabled env \<and> err = AssertionError"
proof -
  from facesAssignedD[OF assms(2,3)] obtain f r where
    h: "halfFace g (forwardHalf e) = Some f" "halfFace g (reversedHalf e) = Some r"
    by blast
  show ?thesis
    by (cases "windingMap (faceObj g f)"; cases "windingMap (faceObj g r)")
       (use assms(1) h in \<open>auto simp add: windingStep_def split: if_splits\<close>)
qed

lemma windingPass_progress:
  "windingPass env xs g = Inr (kept, g') \<Longrightarrow> facesAssigned g \<Longrightarrow> set xs \<subseteq> set (edges g) \<Longrightarrow>
     length kept \<le> length xs
     \<and> (\<forall>e \<in> set xs. e \<in> set kept \<or> bothSolved g' e)
     \<and> ((\<exists>f \<in> unsolvedFaces g. solvedFace g' f) \<or> length kept < length xs
          \<or> (\<forall>e \<in> set xs. noneSolved g e))"
proof (induction xs arbitrary: g kept g')
  case Nil
  then show ?case by simp
next
  case (Cons e es)
  from Cons.prems(1) obtain b g1 kept1 where
    s: "windingStep env g e = Inr (b, g1)"
    and p: "windingPass env es g1 = Inr (kept1, g')"
    and k: "kept = (if b then kept1 else e # kept1)"
    by (auto split: sum.splits prod.splits)
  have x1: "windingExtends g g1" by (rule windingStep_extends[OF s])
  then have f1: "sameFrame g g1" by (simp add: windingExtends_def)
  have fa1: "facesAssigned g1" using Cons.prems(2) f1 by (simp add: sameFrame_facesAssigned)
  have sub1: "set es \<subseteq> set (edges g1)" using Cons.prems(3) f1 by (simp add: sameFrame_def)
  note ih = Cons.IH[OF p fa1 sub1]
  have x2: "windingExtends g1 g'" using windingPass_sound[OF p] by simp
  have ein: "e \<in> set (edges g)" using Cons.prems(3) by simp
  note st = windingStep_progress[OF s Cons.prems(2) ein]
  have len: "length kept \<le> length (e # es)" using ih k by (simp split: if_splits)
  have both: "e' \<in> set kept \<or> bothSolved g' e'" if "e' \<in> set (e # es)" for e'
  proof (cases "e' = e")
    case True
    then show ?thesis using st k extends_bothSolved[OF x2] by auto
  next
    case False
    then show ?thesis using ih that k by (auto split: if_splits)
  qed
  have prog: "(\<exists>f \<in> unsolvedFaces g. solvedFace g' f) \<or> length kept < length (e # es)
          \<or> (\<forall>e' \<in> set (e # es). noneSolved g e')"
  proof -
    consider (spliced) "b" "g1 = g" | (none) "\<not> b" "g1 = g" "noneSolved g e"
      | (solved) "\<not> b" "\<exists>f \<in> unsolvedFaces g. solvedFace g1 f"
      using st by blast
    then show ?thesis
    proof cases
      case spliced
      then show ?thesis using ih k by simp
    next
      case none
      then show ?thesis using ih k by auto
    next
      case solved
      then show ?thesis using extends_solved[OF x2] by blast
    qed
  qed
  show ?case using len both prog by blast
qed

lemma windingPass_Inl:
  "windingPass env xs g = Inl err \<Longrightarrow> facesAssigned g \<Longrightarrow> set xs \<subseteq> set (edges g) \<Longrightarrow>
     assertEnabled env \<and> err = AssertionError"
proof (induction xs arbitrary: g)
  case Nil
  then show ?case by simp
next
  case (Cons e es)
  show ?case
  proof (cases "windingStep env g e")
    case (Inl err')
    then show ?thesis using Cons.prems windingStep_Inl[of env g e err'] by simp
  next
    case (Inr bg)
    obtain b g1 where bg: "bg = (b, g1)" by (cases bg)
    have f1: "sameFrame g g1" using windingStep_extends[of env g e b g1] Inr bg
      by (simp add: windingExtends_def)
    have "windingPass env es g1 = Inl err"
      using Cons.prems(1) Inr bg by (simp split: sum.splits prod.splits)
    then show ?thesis
      using Cons.IH[of g1] Cons.prems f1
      by (simp add: sameFrame_facesAssigned) (simp add: sameFrame_def)
  qed
qed

lemma reachable_solved:
  assumes "solvedFace g (unboundedFace g)"
    and "\<forall>e \<in> set (edges g). bothSolved g e \<or> noneSolved g e"
    and "reachableFace g f"
  shows "solvedFace g f"
  using assms(3)
proof (induction rule: reachableFace.induct)
  case unbounded
  then show ?case by (rule assms(1))
next
  case (toForward r e f)
  then have "bothSolved g e \<or> noneSolved g e" using assms(2) by blast
  then show ?case using toForward by (auto simp: bothSolved_def noneSolved_def)
next
  case (toReversed f e r)
  then have "bothSolved g e \<or> noneSolved g e" using assms(2) by blast
  then show ?case using toReversed by (auto simp: bothSolved_def noneSolved_def)
qed

lemma windingInv_not_stuck:
  assumes "windingInv g es" and "es \<noteq> []"
  shows "\<not> (\<forall>e \<in> set es. noneSolved g e)"
proof
  assume n: "\<forall>e \<in> set es. noneSolved g e"
  from assms(2) obtain e where e: "e \<in> set es" by (cases es) auto
  then have ein: "e \<in> set (edges g)" using assms(1) by (auto simp: windingInv_def)
  from assms(1) have fa: "facesAssigned g" by (simp add: windingInv_def)
  from facesAssignedD[OF fa ein] obtain f r where
    h: "halfFace g (forwardHalf e) = Some f" "halfFace g (reversedHalf e) = Some r"
       "f \<in> set (faces g)" by blast
  have "\<forall>e \<in> set (edges g). bothSolved g e \<or> noneSolved g e"
    using assms(1) n by (auto simp: windingInv_def)
  moreover have "reachableFace g f" using assms(1) h by (simp add: windingInv_def)
  ultimately have "solvedFace g f"
    using reachable_solved[of g f] assms(1) by (simp add: windingInv_def)
  moreover have "\<not> solvedFace g f" using n e h by (auto simp: noneSolved_def)
  ultimately show False by simp
qed

lemma finite_unsolvedFaces [simp]: "finite (unsolvedFaces g)"
  by (simp add: unsolvedFaces_def)

lemma measure_arith:
  fixes u u' n n' L :: nat
  assumes "u' < u" and "n' \<le> L"
  shows "u' * Suc L + n' < u * Suc L + n"
proof -
  have "Suc u' * Suc L \<le> u * Suc L" using assms(1) by (intro mult_le_mono1) simp
  then show ?thesis using assms(2) by simp
qed

lemma windingPass_step:
  assumes inv: "windingInv g es" and ne: "es \<noteq> []"
    and p: "windingPass env (rev es) g = Inr (kept, g')"
  shows "windingInv g' (rev kept) \<and> windingExtends g g'
       \<and> windingMeasure g' (rev kept) < windingMeasure g es"
proof -
  from inv have fa: "facesAssigned g" and sub: "set (rev es) \<subseteq> set (edges g)"
    and len: "length es \<le> length (edges g)"
    by (simp_all add: windingInv_def)
  note pr = windingPass_progress[OF p fa sub]
  have x: "windingExtends g g'" using windingPass_sound[OF p] by simp
  then have fr: "sameFrame g g'" by (simp add: windingExtends_def)
  then have eq: "edges g' = edges g" "faces g' = faces g" "unboundedFace g' = unboundedFace g"
    by (simp_all add: sameFrame_def)
  have klen: "length kept \<le> length es" using pr by simp
  have ksub: "set kept \<subseteq> set es" using windingPass_sound[OF p] by simp
  have both: "e \<in> set kept \<or> bothSolved g' e" if "e \<in> set (edges g)" for e
  proof (cases "e \<in> set es")
    case True
    then show ?thesis using pr by simp
  next
    case False
    then have "bothSolved g e" using inv that by (auto simp: windingInv_def)
    then show ?thesis using extends_bothSolved[OF x] by simp
  qed
  have inv': "windingInv g' (rev kept)"
    unfolding windingInv_def eq
    using inv sameFrame_facesAssigned[OF fr] sameFrame_reachable[OF fr] extends_solved[OF x]
      klen ksub both len
    by (auto simp: windingInv_def)
  have us: "unsolvedFaces g' \<subseteq> unsolvedFaces g" by (rule extends_unsolved[OF x])
  consider (solved) "\<exists>f \<in> unsolvedFaces g. solvedFace g' f" | (spliced) "length kept < length (rev es)"
    using pr windingInv_not_stuck[OF inv ne] by auto
  then have "windingMeasure g' (rev kept) < windingMeasure g es"
  proof cases
    case solved
    then obtain f where f: "f \<in> unsolvedFaces g" "f \<notin> unsolvedFaces g'"
      by (auto simp: unsolvedFaces_def)
    then have "unsolvedFaces g' \<subset> unsolvedFaces g" using us by blast
    then have "card (unsolvedFaces g') < card (unsolvedFaces g)"
      by (simp add: psubset_card_mono)
    then show ?thesis
      unfolding windingMeasure_def eq using klen len by (intro measure_arith) simp_all
  next
    case spliced
    have "card (unsolvedFaces g') \<le> card (unsolvedFaces g)"
      using us by (simp add: card_mono)
    then have "card (unsolvedFaces g') * Suc (length (edges g))
               \<le> card (unsolvedFaces g) * Suc (length (edges g))"
      by (rule mult_le_mono1)
    then show ?thesis
      unfolding windingMeasure_def eq using spliced by (intro add_le_less_mono) simp_all
  qed
  then show ?thesis using inv' x by simp
qed

lemma windingInv_done:
  assumes "windingInv g []" and "f \<in> set (faces g)"
  shows "solvedFace g f"
proof -
  have "\<forall>e \<in> set (edges g). bothSolved g e \<or> noneSolved g e"
    using assms(1) by (auto simp: windingInv_def)
  then show ?thesis
    using reachable_solved[of g f] assms by (simp add: windingInv_def)
qed

lemma windingLoop_terminates:
  assumes "windingInv g es"
  shows "\<exists>r. windingLoop env es g = Some r \<and>
           (case r of
              Inl err \<Rightarrow> assertEnabled env \<and> err = AssertionError
            | Inr g' \<Rightarrow> windingExtends g g' \<and> (\<forall>f \<in> set (faces g). solvedFace g' f))"
  using assms
proof (induction "windingMeasure g es" arbitrary: g es rule: less_induct)
  case less
  show ?case
  proof (cases "es = []")
    case True
    then show ?thesis
      using windingInv_done[of g] less.prems by (subst windingLoop.simps) simp
  next
    case False
    show ?thesis
    proof (cases "windingPass env (rev es) g")
      case (Inl err)
      have "assertEnabled env \<and> err = AssertionError"
        using windingPass_Inl[OF Inl] less.prems by (simp add: windingInv_def)
      then show ?thesis using False Inl by (subst windingLoop.simps) simp
    next
      case (Inr kg)
      obtain kept g1 where kg: "kg = (kept, g1)" by (cases kg)
      note st = windingPass_step[OF less.prems False Inr[unfolded kg]]
      from st have m: "windingMeasure g1 (rev kept) < windingMeasure g es"
        and i: "windingInv g1 (rev kept)" and x: "windingExtends g g1" by simp_all
      from less.hyps[OF m i] obtain r where
        r: "windingLoop env (rev kept) g1 = Some r"
        and c: "case r of
              Inl err \<Rightarrow> assertEnabled env \<and> err = AssertionError
            | Inr g' \<Rightarrow> windingExtends g1 g' \<and> (\<forall>f \<in> set (faces g1). solvedFace g' f)"
        by blast
      have l: "windingLoop env es g = Some r"
        using False Inr kg r by (subst windingLoop.simps) simp
      have fe: "faces g1 = faces g" using x by (simp add: windingExtends_def sameFrame_def)
      show ?thesis
      proof (cases r)
        case (Inl err)
        then show ?thesis using l c by simp
      next
        case (Inr g')
        then show ?thesis using l c x fe windingExtends_trans by auto
      qed
    qed
  qed
qed

lemma sameFrame_adjacentFace: "sameFrame g g' \<Longrightarrow> adjacentFace g' f = adjacentFace g f"
  by (simp add: adjacentFace_def sameFrame_halfFace) (simp add: sameFrame_def)

lemma sameFrame_potential:
  assumes "sameFrame g g'"
  shows "windingPotential g' W = windingPotential g W"
proof -
  have h: "halfFace g' = halfFace g" "shapeIds g' = shapeIds g" "edges g' = edges g"
    "unboundedFace g' = unboundedFace g" "edgeDifferential g' = edgeDifferential g"
    using assms by (auto simp: sameFrame_def halfFace_def edgeDifferential_def fun_eq_iff)
  show ?thesis unfolding windingPotential_def h ..
qed

lemma agreesWith_set:
  assumes a: "agreesWith g W"
    and m: "\<forall>sid \<in> set (shapeIds g). m sid = Some (Num (of_int (W f sid)))"
  shows "agreesWith (setWindingMap f m g) W"
proof -
  have fr: "sameFrame g (setWindingMap f m g)" by simp
  show ?thesis
    unfolding agreesWith_def sameFrame_adjacentFace[OF fr] windingMap_setWindingMap
    using a m fr by (auto simp: agreesWith_def sameFrame_def)
qed

lemma windingStep_agrees:
  assumes s: "windingStep env g e = Inr (b, g')" and e: "e \<in> set (edges g)"
    and p: "windingPotential g W" and a: "agreesWith g W"
  shows "agreesWith g' W"
proof -
  from s obtain ff rf where
    h: "halfFace g (forwardHalf e) = Some ff" "halfFace g (reversedHalf e) = Some rf"
    and c: "case (windingMap (faceObj g ff), windingMap (faceObj g rf)) of
           (Some mf, Some mr) \<Rightarrow> b \<and> g' = g \<and>
              (assertEnabled env \<longrightarrow>
                 list_all (\<lambda>sid. numEq (numSub (readWinding mf sid) (readWinding mr sid))
                                    (Num (of_int (computeDifferential g e sid)))) (shapeIds g))
         | (None, None) \<Rightarrow> \<not> b \<and> g' = g
         | (Some mf, None) \<Rightarrow> \<not> b \<and> g' = setWindingMap rf (solvedAcross g e mf True) g
         | (None, Some mr) \<Rightarrow> \<not> b \<and> g' = setWindingMap ff (solvedAcross g e mr False) g"
    by (rule windingStep_InrE)
  have adj: "adjacentFace g ff" "adjacentFace g rf"
    using e h by (auto simp: adjacentFace_def)
  have d0: "W ff sid - W rf sid = edgeDifferential g e sid" if "sid \<in> set (shapeIds g)" for sid
    using p e h that by (auto simp: windingPotential_def)
  have d: "real_of_int (W ff sid) = real_of_int (W rf sid) + real_of_int (edgeDifferential g e sid)"
    if "sid \<in> set (shapeIds g)" for sid
    using d0[OF that] by (metis add.commute diff_add_cancel of_int_add)
  show ?thesis
  proof (cases "windingMap (faceObj g ff)")
    case nf: None
    show ?thesis
    proof (cases "windingMap (faceObj g rf)")
      case None
      then show ?thesis using c nf a by simp
    next
      case (Some mr)
      have mr: "mr sid = Some (Num (of_int (W rf sid)))" if "sid \<in> set (shapeIds g)" for sid
        using a adj Some that by (auto simp: agreesWith_def)
      have "\<forall>sid \<in> set (shapeIds g).
              solvedAcross g e mr False sid = Some (Num (of_int (W ff sid)))"
        using mr d by (auto simp: solvedAcross_eq readWinding_def computeDifferential_eq)
      then show ?thesis using c nf Some agreesWith_set[OF a] by simp
    qed
  next
    case sf: (Some mf)
    show ?thesis
    proof (cases "windingMap (faceObj g rf)")
      case None
      have mf: "mf sid = Some (Num (of_int (W ff sid)))" if "sid \<in> set (shapeIds g)" for sid
        using a adj sf that by (auto simp: agreesWith_def)
      have "\<forall>sid \<in> set (shapeIds g).
              solvedAcross g e mf True sid = Some (Num (of_int (W rf sid)))"
        using mf d by (auto simp: solvedAcross_eq readWinding_def computeDifferential_eq)
      then show ?thesis using c sf None agreesWith_set[OF a] by simp
    next
      case (Some mr)
      then show ?thesis using c sf a by simp
    qed
  qed
qed

lemma windingPass_agrees:
  "windingPass env xs g = Inr (kept, g') \<Longrightarrow> set xs \<subseteq> set (edges g) \<Longrightarrow>
     windingPotential g W \<Longrightarrow> agreesWith g W \<Longrightarrow>
     agreesWith g' W \<and> (\<forall>e \<in> set xs. e \<in> set kept \<or> bothSolved g' e)"
proof (induction xs arbitrary: g kept g')
  case Nil
  then show ?case by simp
next
  case (Cons e es)
  from Cons.prems(1) obtain b g1 kept1 where
    s: "windingStep env g e = Inr (b, g1)"
    and p: "windingPass env es g1 = Inr (kept1, g')"
    and k: "kept = (if b then kept1 else e # kept1)"
    by (auto split: sum.splits prod.splits)
  have ein: "e \<in> set (edges g)" using Cons.prems(2) by simp
  have f1: "sameFrame g g1" using windingStep_extends[OF s] by (simp add: windingExtends_def)
  have a1: "agreesWith g1 W" by (rule windingStep_agrees[OF s ein Cons.prems(3,4)])
  have sub1: "set es \<subseteq> set (edges g1)" using Cons.prems(2) f1 by (simp add: sameFrame_def)
  have p1: "windingPotential g1 W" using Cons.prems(3) sameFrame_potential[OF f1] by simp
  note ih = Cons.IH[OF p sub1 p1 a1]
  have x2: "windingExtends g1 g'" using windingPass_sound[OF p] by simp
  have be: "bothSolved g1 e" if "b"
  proof -
    from s obtain ff rf where
      h: "halfFace g (forwardHalf e) = Some ff" "halfFace g (reversedHalf e) = Some rf"
      and c: "case (windingMap (faceObj g ff), windingMap (faceObj g rf)) of
           (Some mf, Some mr) \<Rightarrow> b \<and> g1 = g \<and>
              (assertEnabled env \<longrightarrow>
                 list_all (\<lambda>sid. numEq (numSub (readWinding mf sid) (readWinding mr sid))
                                    (Num (of_int (computeDifferential g e sid)))) (shapeIds g))
         | (None, None) \<Rightarrow> \<not> b \<and> g1 = g
         | (Some mf, None) \<Rightarrow> \<not> b \<and> g1 = setWindingMap rf (solvedAcross g e mf True) g
         | (None, Some mr) \<Rightarrow> \<not> b \<and> g1 = setWindingMap ff (solvedAcross g e mr False) g"
      by (rule windingStep_InrE)
    show ?thesis
      by (cases "windingMap (faceObj g ff)"; cases "windingMap (faceObj g rf)")
         (use c h that in \<open>auto simp add: bothSolved_def solvedFace_def\<close>)
  qed
  have "e' \<in> set kept \<or> bothSolved g' e'" if "e' \<in> set (e # es)" for e'
  proof (cases "e' = e")
    case True
    then show ?thesis using be k extends_bothSolved[OF x2] by (cases b) auto
  next
    case False
    then show ?thesis using ih that k by (auto split: if_splits)
  qed
  then show ?case using ih by blast
qed

lemma windingLoop_partial:
  "windingLoop env es g = Some r \<Longrightarrow>
     (\<forall>g'. r = Inr g' \<longrightarrow>
        windingExtends g g'
        \<and> (assertEnabled env \<longrightarrow> (\<forall>e \<in> set es. windingConsistent g' e))
        \<and> (set es \<subseteq> set (edges g) \<longrightarrow> windingPotential g W \<longrightarrow> agreesWith g W \<longrightarrow>
             agreesWith g' W \<and> (\<forall>e \<in> set es. bothSolved g' e)))"
proof (induction env es g r rule: windingLoop.raw_induct[rotated -1, consumes 1, case_names step])
  case (step loop env es g r)
  show ?case
  proof (cases "es = []")
    case True
    then show ?thesis using step(2) by auto
  next
    case False
    show ?thesis
    proof (intro allI impI)
      fix g' assume r: "r = Inr g'"
      with step(2) False obtain kept g1 where
        p: "windingPass env (rev es) g = Inr (kept, g1)"
        and l: "loop env (rev kept) g1 = Some (Inr g')"
        by (auto split: sum.splits prod.splits)
      note ps = windingPass_sound[OF p]
      have f1: "sameFrame g g1" using ps by (simp add: windingExtends_def)
      from step(1)[OF l] have
        x: "windingExtends g1 g'"
        and ihc: "\<And>e. assertEnabled env \<Longrightarrow> e \<in> set kept \<Longrightarrow> windingConsistent g' e"
        and iha: "set (rev kept) \<subseteq> set (edges g1) \<Longrightarrow> windingPotential g1 W \<Longrightarrow> agreesWith g1 W
                  \<Longrightarrow> agreesWith g' W \<and> (\<forall>e \<in> set (rev kept). bothSolved g' e)"
        by simp_all
      have ext: "windingExtends g g'" using x ps windingExtends_trans by blast
      have con: "windingConsistent g' e" if "assertEnabled env" "e \<in> set es" for e
      proof -
        from ps that have "e \<in> set kept \<or> windingConsistent g1 e" by simp
        then show ?thesis using ihc that x windingConsistent_mono by blast
      qed
      have agr: "agreesWith g' W \<and> (\<forall>e \<in> set es. bothSolved g' e)"
        if sub: "set es \<subseteq> set (edges g)" and pot: "windingPotential g W" and a: "agreesWith g W"
      proof -
        have sub': "set (rev es) \<subseteq> set (edges g)" using sub by simp
        note pa = windingPass_agrees[OF p sub' pot a]
        have sub1: "set (rev kept) \<subseteq> set (edges g1)"
          using ps sub f1 by (auto simp: sameFrame_def)
        have p1: "windingPotential g1 W" using pot sameFrame_potential[OF f1] by simp
        from iha[OF sub1 p1] pa have
          ih: "agreesWith g' W" "\<And>e. e \<in> set kept \<Longrightarrow> bothSolved g' e"
          by simp_all
        have "bothSolved g' e" if "e \<in> set es" for e
          using pa that ih extends_bothSolved[OF x] by auto
        then show ?thesis using ih by blast
      qed
      show "windingExtends g g'
        \<and> (assertEnabled env \<longrightarrow> (\<forall>e \<in> set es. windingConsistent g' e))
        \<and> (set es \<subseteq> set (edges g) \<longrightarrow> windingPotential g W \<longrightarrow> agreesWith g W \<longrightarrow>
             agreesWith g' W \<and> (\<forall>e \<in> set es. bothSolved g' e))"
        using ext con agr by blast
    qed
  qed
qed

lemma agrees_consistent:
  assumes "agreesWith g W" and "windingPotential g W" and "bothSolved g e" and "e \<in> set (edges g)"
  shows "windingConsistent g e"
proof -
  from assms(3) obtain f r mf mr where
    h: "halfFace g (forwardHalf e) = Some f" "halfFace g (reversedHalf e) = Some r"
    and m: "windingMap (faceObj g f) = Some mf" "windingMap (faceObj g r) = Some mr"
    by (auto simp: bothSolved_def solvedFace_def split: option.splits)
  have adj: "adjacentFace g f" "adjacentFace g r"
    using assms(4) h by (auto simp: adjacentFace_def)
  have v: "mf sid = Some (Num (of_int (W f sid)))" "mr sid = Some (Num (of_int (W r sid)))"
    if "sid \<in> set (shapeIds g)" for sid
    using assms(1) adj m that by (auto simp: agreesWith_def)
  have d: "W f sid - W r sid = edgeDifferential g e sid" if "sid \<in> set (shapeIds g)" for sid
    using assms(2,4) h that by (auto simp: windingPotential_def)
  have "numSub (windingAt g f sid) (windingAt g r sid) = Num (of_int (edgeDifferential g e sid))"
    if "sid \<in> set (shapeIds g)" for sid
    using v[OF that] d[OF that] m
    by (simp add: windingAt_def readWinding_def numSub_def)
  then show ?thesis
    using h m by (simp add: windingConsistent_def solvedFace_def list_all_iff)
qed

lemmas run_winding =
  computeWindingMap_def windingStep_def setWindingMap_def outsideMap_def solvedAcross_def
  computeDifferential_def readWinding_def halfFace_def numSub_def
  forwardHalf_def reversedHalf_def quietEnv_def planeEnv_def

lemma triangle_winding:
  "computeWindingMap (quietEnv True) triangleGraph
     = Some (Inr (setWindingMap 7 [0 \<mapsto> Num 1] (setWindingMap 0 [0 \<mapsto> Num 0] triangleGraph)))"
  by (simp add: run_winding triangleGraph_def windingLoop.simps)

lemma triangle_reachable: "reachableFace triangleGraph 0" "reachableFace triangleGraph 7"
proof -
  show r0: "reachableFace triangleGraph 0"
    using reachableFace.unbounded[of triangleGraph] by (simp add: triangleGraph_def)
  show "reachableFace triangleGraph 7"
    by (rule reachableFace.toForward[OF r0, of 4])
       (simp_all add: triangleGraph_def halfFace_def forwardHalf_def reversedHalf_def)
qed

lemma numSub_NumE:
  assumes "numSub u v = Num x"
  obtains a b where "u = Num a" "v = Num b" "x = a - b"
proof (cases u; cases v)
  fix a b assume "u = Num a" "v = Num b"
  moreover from this assms have "x = a - b" by (simp add: numSub_def)
  ultimately show thesis by (rule that)
qed (use assms in \<open>simp_all add: numSub_def\<close>)

lemma consistent_potential:
  assumes fr: "sameFrame g g'"
    and z: "\<forall>sid \<in> set (shapeIds g). windingAt g' (unboundedFace g) sid = Num 0"
    and c: "\<forall>e \<in> set (edges g). windingConsistent g' e"
  shows "\<exists>W. windingPotential g W"
proof -
  define W where "W = (\<lambda>f sid. case windingAt g' f sid of Num x \<Rightarrow> \<lfloor>x\<rfloor> | _ \<Rightarrow> 0)"
  have s: "shapeIds g' = shapeIds g" using fr by (simp add: sameFrame_def)
  have u: "W (unboundedFace g) sid = 0" if "sid \<in> set (shapeIds g)" for sid
    using z that by (simp add: W_def)
  have e: "case (halfFace g (forwardHalf e), halfFace g (reversedHalf e)) of
           (Some f, Some r) \<Rightarrow>
             (\<forall>sid \<in> set (shapeIds g). W f sid - W r sid = edgeDifferential g e sid)
         | _ \<Rightarrow> False" if "e \<in> set (edges g)" for e
  proof -
    from c that have w: "windingConsistent g' e" by blast
    then obtain f r where h: "halfFace g' (forwardHalf e) = Some f" "halfFace g' (reversedHalf e) = Some r"
      by (auto simp: windingConsistent_def split: option.splits)
    have h': "halfFace g (forwardHalf e) = Some f" "halfFace g (reversedHalf e) = Some r"
      using h sameFrame_halfFace[OF fr] by simp_all
    have "W f sid - W r sid = edgeDifferential g e sid" if "sid \<in> set (shapeIds g)" for sid
    proof -
      have "numSub (windingAt g' f sid) (windingAt g' r sid) = Num (of_int (edgeDifferential g' e sid))"
        using w h that s by (simp add: windingConsistent_def list_all_iff)
      then obtain a b where ab: "windingAt g' f sid = Num a" "windingAt g' r sid = Num b"
        "real_of_int (edgeDifferential g' e sid) = a - b"
        by (rule numSub_NumE)
      have "a = b + real_of_int (edgeDifferential g' e sid)" using ab(3) by simp
      then have "\<lfloor>a\<rfloor> = \<lfloor>b\<rfloor> + edgeDifferential g' e sid" by simp
      then show ?thesis
        using ab sameFrame_differential[OF fr] by (simp add: W_def)
    qed
    then show ?thesis using h' by simp
  qed
  have p: "windingPotential g W" unfolding windingPotential_def using u e by blast
  show ?thesis by (rule exI[of _ W]) (rule p)
qed

lemma triangle_winding_quiet:
  "computeWindingMap (quietEnv False) triangleGraph
     = Some (Inr (setWindingMap 7 [0 \<mapsto> Num 1] (setWindingMap 0 [0 \<mapsto> Num 0] triangleGraph)))"
  by (simp add: run_winding triangleGraph_def windingLoop.simps)

lemma brokenLoop_winding:
  "computeWindingMap (quietEnv False) brokenLoopGraph
     = Some (Inr (setWindingMap 7 [0 \<mapsto> Num 0] (setWindingMap 0 [0 \<mapsto> Num 0] brokenLoopGraph)))"
  "computeWindingMap (quietEnv True) brokenLoopGraph = Some (Inl AssertionError)"
  by (simp_all add: run_winding brokenLoopGraph_def triangleGraph_def windingLoop.simps)

lemma triangle_potential:
  "freshFaces triangleGraph"
  "windingPotential triangleGraph (\<lambda>f sid. if f = 7 then 1 else 0)"
  by (simp_all add: freshFaces_def windingPotential_def triangleGraph_def edgeDifferential_def
        halfFace_def forwardHalf_def reversedHalf_def)

subsection \<open>Alternating fill\<close>

lemma sameFrame_setFilled [simp]: "sameFrame g (setFilled f b g)"
  by (simp add: sameFrame_def setFilled_def)

lemma filled_setFilled:
  "filled (faceObj (setFilled f b g) f') = (if f' = f then b else filled (faceObj g f'))"
  by (simp add: setFilled_def)

lemma fillExtends_refl [simp]: "fillExtends g g"
  by (simp add: fillExtends_def)

lemma fillExtends_trans: "fillExtends g g1 \<Longrightarrow> fillExtends g1 g2 \<Longrightarrow> fillExtends g g2"
  unfolding fillExtends_def using sameFrame_trans by blast

lemma fillExtends_set: "filled (faceObj g f) = None \<Longrightarrow> fillExtends g (setFilled f b g)"
  by (auto simp: fillExtends_def filled_setFilled)

lemma getReversed_halves [simp]:
  "getReversed (forwardHalf e) = reversedHalf e" "getReversed (reversedHalf e) = forwardHalf e"
  by (simp_all add: getReversed_def forwardHalf_def reversedHalf_def)

lemma hasOpposite_iff:
  "hasOpposite g f h \<longleftrightarrow>
     (\<exists>f' b. halfFace g h = Some f' \<and> filled (faceObj g f') = Some b
             \<and> filled (faceObj g f) = Some (\<not> b))"
  by (auto simp: hasOpposite_def split: option.splits)

lemma hasOpposite_mono:
  assumes "fillExtends g g'" and "hasOpposite g f h"
  shows "hasOpposite g' f h"
proof -
  from assms(2) obtain f' b where
    "halfFace g h = Some f'" "filled (faceObj g f') = Some b" "filled (faceObj g f) = Some (\<not> b)"
    unfolding hasOpposite_iff by blast
  then have "halfFace g' h = Some f' \<and> filled (faceObj g' f') = Some b
             \<and> filled (faceObj g' f) = Some (\<not> b)"
    using assms(1) sameFrame_halfFace[of g g' h] by (simp add: fillExtends_def)
  then show ?thesis unfolding hasOpposite_iff by blast
qed

lemma oppositeNeighbour_mono:
  assumes x: "fillExtends g g'" and o: "oppositeNeighbour g f"
  shows "oppositeNeighbour g' f"
proof -
  have fr: "sameFrame g g'" using x by (simp add: fillExtends_def)
  from o obtain e where e: "e \<in> set (edges g)"
    and c: "halfFace g (forwardHalf e) = Some f \<and> hasOpposite g f (reversedHalf e)
          \<or> halfFace g (reversedHalf e) = Some f \<and> hasOpposite g f (forwardHalf e)"
    unfolding oppositeNeighbour_def list_ex_iff by blast
  have e': "e \<in> set (edges g')" using e fr by (simp add: sameFrame_def)
  have "halfFace g' (forwardHalf e) = Some f \<and> hasOpposite g' f (reversedHalf e)
          \<or> halfFace g' (reversedHalf e) = Some f \<and> hasOpposite g' f (forwardHalf e)"
    using c hasOpposite_mono[OF x, of f "reversedHalf e"] hasOpposite_mono[OF x, of f "forwardHalf e"]
    unfolding sameFrame_halfFace[OF fr] by blast
  then show ?thesis unfolding oppositeNeighbour_def list_ex_iff using e' by blast
qed

text \<open>What one step does, given an edge with both faces.\<close>

lemma fillStep_cases:
  assumes s: "fillStep e (g, c) = Inr (g', c')"
    and hf: "halfFace g (forwardHalf e) = Some f" and hr: "halfFace g (reversedHalf e) = Some r"
  shows "(g' = g \<and> c' = c \<and> sameNullness g e)
       \<or> (\<exists>b. filled (faceObj g f) = None \<and> filled (faceObj g r) = Some b
               \<and> g' = setFilled f (Some (\<not> b)) g \<and> c' = c - 1)
       \<or> (\<exists>b. filled (faceObj g r) = None \<and> filled (faceObj g f) = Some b
               \<and> g' = setFilled r (Some (\<not> b)) g \<and> c' = c - 1)"
  by (cases "filled (faceObj g f)"; cases "filled (faceObj g r)")
     (use s hf hr in \<open>auto simp add: fillStep_def sameNullness_def\<close>)

lemma fillStep_Inr:
  assumes "facesAssigned g" and "e \<in> set (edges g)"
  shows "\<exists>g' c'. fillStep e (g, c) = Inr (g', c')"
proof -
  from facesAssignedD[OF assms] obtain f r where
    h: "halfFace g (forwardHalf e) = Some f" "halfFace g (reversedHalf e) = Some r"
    by blast
  show ?thesis
    by (cases "filled (faceObj g f)"; cases "filled (faceObj g r)")
       (use h in \<open>auto simp add: fillStep_def\<close>)
qed

lemma card_nullFaces_set:
  assumes "f \<in> set (faces g)" and "filled (faceObj g f) = None"
  shows "int (card (nullFaces (setFilled f (Some b) g))) = int (card (nullFaces g)) - 1"
proof -
  have eq: "nullFaces (setFilled f (Some b) g) = nullFaces g - {f}"
    by (auto simp: nullFaces_def setFilled_def)
  have mem: "f \<in> nullFaces g" using assms by (simp add: nullFaces_def)
  have fin: "finite (nullFaces g)" by (simp add: nullFaces_def)
  have "card (nullFaces g) = Suc (card (nullFaces g - {f}))"
    using fin mem by (rule card.remove)
  then show ?thesis unfolding eq by simp
qed

lemma fillInv_assign:
  assumes inv: "fillInv (g, c)" and e: "e \<in> set (edges g)"
    and hf: "halfFace g h = Some f" and hr: "halfFace g (getReversed h) = Some r"
    and h: "h = forwardHalf e \<or> h = reversedHalf e"
    and fin: "f \<in> set (faces g)" "r \<in> set (faces g)"
    and nf: "filled (faceObj g f) = None" and sr: "filled (faceObj g r) = Some b"
  shows "fillInv (setFilled f (Some (\<not> b)) g, c - 1)"
proof -
  let ?g = "setFilled f (Some (\<not> b)) g"
  have fr: "sameFrame g ?g" by simp
  have x: "fillExtends g ?g" by (rule fillExtends_set[OF nf])
  have eq: "faces ?g = faces g" "unboundedFace ?g = unboundedFace g" "edges ?g = edges g"
    by (simp_all add: setFilled_def)
  from inv have fa: "facesAssigned g" and c: "c = int (card (nullFaces g))"
    and u: "filled (faceObj g (unboundedFace g)) = Some False"
    and k: "\<And>f0. f0 \<in> set (faces g) \<Longrightarrow> filled (faceObj g f0) \<noteq> None \<Longrightarrow>
              reachableFace g f0 \<and> (f0 = unboundedFace g \<or> oppositeNeighbour g f0)"
    by (simp_all add: fillInv_def)
  have rf: "r \<noteq> f" using nf sr by auto
  have rr: "reachableFace g r" using k[OF fin(2)] sr by simp
  have reach: "reachableFace g f"
    using h
  proof
    assume "h = forwardHalf e"
    then show ?thesis using reachableFace.toForward[OF rr e, of f] hf hr by simp
  next
    assume "h = reversedHalf e"
    then show ?thesis using reachableFace.toReversed[OF rr e, of f] hf hr by simp
  qed
  have ho: "hasOpposite ?g f (getReversed h)"
    unfolding hasOpposite_iff sameFrame_halfFace[OF fr]
    using hr sr rf by (auto simp: filled_setFilled)
  have opp: "oppositeNeighbour ?g f"
    unfolding oppositeNeighbour_def list_ex_iff eq sameFrame_halfFace[OF fr]
    using e h hf ho by (intro bexI[of _ e]) auto
  have k': "reachableFace ?g f0 \<and> (f0 = unboundedFace g \<or> oppositeNeighbour ?g f0)"
    if "f0 \<in> set (faces g)" "filled (faceObj ?g f0) \<noteq> None" for f0
  proof (cases "f0 = f")
    case True
    then show ?thesis using reach opp sameFrame_reachable[OF fr] by simp
  next
    case False
    then have "filled (faceObj g f0) \<noteq> None" using that by (simp add: filled_setFilled)
    then show ?thesis
      using k[OF that(1)] oppositeNeighbour_mono[OF x] sameFrame_reachable[OF fr] by auto
  qed
  have u': "filled (faceObj ?g (unboundedFace g)) = Some False"
    using u nf by (auto simp: filled_setFilled)
  show ?thesis
    unfolding fillInv_def prod.case eq
    using sameFrame_facesAssigned[OF fr] fa c card_nullFaces_set[OF fin(1) nf] u' k'
    by simp
qed

lemma fillStep_inv:
  assumes inv: "fillInv (g, c)" and e: "e \<in> set (edges g)"
    and s: "fillStep e (g, c) = Inr (g', c')"
  shows "fillInv (g', c') \<and> fillExtends g g'
       \<and> (g' = g \<and> c' = c \<and> sameNullness g e \<or> c' = c - 1)"
proof -
  from inv have fa: "facesAssigned g" by (simp add: fillInv_def)
  from facesAssignedD[OF fa e] obtain f r where
    hf: "halfFace g (forwardHalf e) = Some f" and hr: "halfFace g (reversedHalf e) = Some r"
    and fin: "f \<in> set (faces g)" "r \<in> set (faces g)"
    by blast
  from fillStep_cases[OF s hf hr]
  consider (same) "g' = g" "c' = c" "sameNullness g e"
    | (fwd) b where "filled (faceObj g f) = None" "filled (faceObj g r) = Some b"
        "g' = setFilled f (Some (\<not> b)) g" "c' = c - 1"
    | (rev) b where "filled (faceObj g r) = None" "filled (faceObj g f) = Some b"
        "g' = setFilled r (Some (\<not> b)) g" "c' = c - 1"
    by blast
  then show ?thesis
  proof cases
    case same
    then show ?thesis using inv by simp
  next
    case fwd
    have "fillInv (setFilled f (Some (\<not> b)) g, c - 1)"
      by (rule fillInv_assign[OF inv e, of "forwardHalf e" f r]) (use hf hr fin fwd in simp_all)
    then show ?thesis using fwd fillExtends_set by simp
  next
    case rev
    have "fillInv (setFilled r (Some (\<not> b)) g, c - 1)"
      by (rule fillInv_assign[OF inv e, of "reversedHalf e" r f]) (use hf hr fin rev in simp_all)
    then show ?thesis using rev fillExtends_set by simp
  qed
qed

lemma fillPass_inv:
  "fillInv (g, c) \<Longrightarrow> set xs \<subseteq> set (edges g) \<Longrightarrow>
     \<exists>g' c'. fillPass xs (g, c) = Inr (g', c') \<and> fillInv (g', c') \<and> fillExtends g g'
        \<and> (g' = g \<and> c' = c \<and> (\<forall>e \<in> set xs. sameNullness g e) \<or> c' < c)"
proof (induction xs arbitrary: g c)
  case Nil
  then show ?case by simp
next
  case (Cons e es)
  have ein: "e \<in> set (edges g)" using Cons.prems(2) by simp
  have fa: "facesAssigned g" using Cons.prems(1) by (simp add: fillInv_def)
  from fillStep_Inr[OF fa ein, of c] obtain g1 c1 where
    s: "fillStep e (g, c) = Inr (g1, c1)" by blast
  note st = fillStep_inv[OF Cons.prems(1) ein s]
  have fr: "sameFrame g g1" using st by (simp add: fillExtends_def)
  have sub1: "set es \<subseteq> set (edges g1)" using Cons.prems(2) fr by (simp add: sameFrame_def)
  from st have inv1: "fillInv (g1, c1)" by simp
  from Cons.IH[OF inv1 sub1] obtain g' c' where
    p: "fillPass es (g1, c1) = Inr (g', c')" and inv': "fillInv (g', c')"
    and x: "fillExtends g1 g'"
    and d: "g' = g1 \<and> c' = c1 \<and> (\<forall>e \<in> set es. sameNullness g1 e) \<or> c' < c1"
    by blast
  have "fillPass (e # es) (g, c) = Inr (g', c')" using s p by simp
  moreover have "fillExtends g g'" using st x fillExtends_trans by blast
  moreover have "g' = g \<and> c' = c \<and> (\<forall>e' \<in> set (e # es). sameNullness g e') \<or> c' < c"
    using st d by auto
  ultimately show ?case using inv' by blast
qed

lemma reachable_not_null:
  assumes "filled (faceObj g (unboundedFace g)) \<noteq> None"
    and "\<forall>e \<in> set (edges g). sameNullness g e"
    and "reachableFace g f"
  shows "filled (faceObj g f) \<noteq> None"
  using assms(3)
proof (induction rule: reachableFace.induct)
  case unbounded
  then show ?case by (rule assms(1))
next
  case (toForward r e f)
  then have "sameNullness g e" using assms(2) by blast
  then show ?case using toForward by (simp add: sameNullness_def)
next
  case (toReversed f e r)
  then have "sameNullness g e" using assms(2) by blast
  then show ?case using toReversed by (simp add: sameNullness_def)
qed

lemma fillInv_nonneg: "fillInv (g, c) \<Longrightarrow> 0 \<le> c"
  by (simp add: fillInv_def)

lemma fillInv_zero:
  assumes "fillInv (g, 0)" and "f \<in> set (faces g)"
  shows "filled (faceObj g f) \<noteq> None \<and> reachableFace g f
         \<and> (f = unboundedFace g \<or> oppositeNeighbour g f)"
proof -
  have "finite (nullFaces g)" by (simp add: nullFaces_def)
  then have "nullFaces g = {}" using assms(1) by (simp add: fillInv_def)
  then have "filled (faceObj g f) \<noteq> None" using assms(2) by (auto simp: nullFaces_def)
  then show ?thesis using assms by (simp add: fillInv_def)
qed

lemma fillLoop_terminates:
  assumes "fillInv (g, c)" and "\<forall>f \<in> set (faces g). reachableFace g f"
  shows "\<exists>g'. fillLoop (g, c) = Some (Inr g') \<and> fillInv (g', 0) \<and> fillExtends g g'"
  using assms
proof (induction "nat c" arbitrary: g c rule: less_induct)
  case less
  show ?case
  proof (cases "c = 0")
    case True
    then show ?thesis using less.prems by (subst fillLoop.simps) simp
  next
    case False
    from fillPass_inv[OF less.prems(1) subset_refl] obtain g1 c1 where
      p: "fillPass (edges g) (g, c) = Inr (g1, c1)" and inv1: "fillInv (g1, c1)"
      and x: "fillExtends g g1"
      and d: "g1 = g \<and> c1 = c \<and> (\<forall>e \<in> set (edges g). sameNullness g e) \<or> c1 < c"
      by blast
    have fr: "sameFrame g g1" using x by (simp add: fillExtends_def)
    have lt: "c1 < c"
    proof (rule ccontr)
      assume "\<not> c1 < c"
      then have sn: "\<forall>e \<in> set (edges g). sameNullness g e" using d by blast
      have "card (nullFaces g) \<noteq> 0" using less.prems(1) False by (simp add: fillInv_def)
      then obtain f where f: "f \<in> nullFaces g" by (metis card.empty ex_in_conv)
      then have rf: "reachableFace g f" using less.prems(2) by (simp add: nullFaces_def)
      have un: "filled (faceObj g (unboundedFace g)) \<noteq> None"
        using less.prems(1) by (simp add: fillInv_def)
      have "filled (faceObj g f) \<noteq> None" by (rule reachable_not_null[OF un sn rf])
      then show False using f by (simp add: nullFaces_def)
    qed
    have m: "nat c1 < nat c" using lt fillInv_nonneg[OF inv1] by simp
    have r1: "\<forall>f \<in> set (faces g1). reachableFace g1 f"
      using less.prems(2) fr sameFrame_reachable[OF fr] by (simp add: sameFrame_def)
    from less.hyps[OF m inv1 r1] obtain g' where
      l: "fillLoop (g1, c1) = Some (Inr g')" and i: "fillInv (g', 0)" and x1: "fillExtends g1 g'"
      by blast
    have "fillLoop (g, c) = Some (Inr g')"
      using False p l by (subst fillLoop.simps) simp
    then show ?thesis using i x x1 fillExtends_trans by blast
  qed
qed

lemma fillLoop_partial:
  "fillLoop gc = Some r \<Longrightarrow> fillInv gc \<longrightarrow>
     (\<exists>g'. r = Inr g' \<and> fillInv (g', 0) \<and> fillExtends (fst gc) g')"
proof (induction gc r rule: fillLoop.raw_induct[rotated -1, consumes 1, case_names step])
  case (step loop gc r)
  obtain g c where gc: "gc = (g, c)" by (cases gc)
  show ?case
  proof
    assume inv: "fillInv gc"
    show "\<exists>g'. r = Inr g' \<and> fillInv (g', 0) \<and> fillExtends (fst gc) g'"
    proof (cases "c = 0")
      case True
      then show ?thesis using step(2) inv gc by auto
    next
      case False
      from fillPass_inv[OF inv[unfolded gc] subset_refl] obtain g1 c1 where
        p: "fillPass (edges g) (g, c) = Inr (g1, c1)" and inv1: "fillInv (g1, c1)"
        and x: "fillExtends g g1"
        by blast
      have "loop (g1, c1) = Some r" using step(2) False p gc by simp
      from step(1)[OF this] inv1 obtain g' where
        "r = Inr g'" "fillInv (g', 0)" "fillExtends g1 g'" by auto
      then show ?thesis using x fillExtends_trans gc by auto
    qed
  qed
qed

lemma clearFilled_foldl:
  "foldl (\<lambda>(g1, n) f. (setFilled f None g1, n + 1)) (g0, n0) fs = (g1, n1) \<Longrightarrow>
     sameFrame g0 g1 \<and> n1 = n0 + int (length fs)
     \<and> (\<forall>f. filled (faceObj g1 f) = (if f \<in> set fs then None else filled (faceObj g0 f)))"
proof (induction fs arbitrary: g0 n0)
  case Nil
  then show ?case by simp
next
  case (Cons a fs)
  from Cons.prems have
    "foldl (\<lambda>(g1, n) f. (setFilled f None g1, n + 1)) (setFilled a None g0, n0 + 1) fs = (g1, n1)"
    by simp
  from Cons.IH[OF this] show ?case
    using sameFrame_trans[OF sameFrame_setFilled[of g0 a None], of g1]
    by (auto simp: filled_setFilled)
qed

lemma fillInv_initial:
  assumes d: "distinct (faces g)" and u: "unboundedFace g \<in> set (faces g)"
    and fa: "facesAssigned g" and c: "clearFilled g = (g1, n)"
  shows "fillInv (setFilled (unboundedFace g1) (Some False) g1, n - 1)"
    and "sameFrame g (setFilled (unboundedFace g1) (Some False) g1)"
proof -
  let ?g2 = "setFilled (unboundedFace g1) (Some False) g1"
  from clearFilled_foldl[OF c[unfolded clearFilled_def]] have
    f1: "sameFrame g g1" and n: "n = int (length (faces g))"
    and fl: "\<And>f. filled (faceObj g1 f) = (if f \<in> set (faces g) then None else filled (faceObj g f))"
    by simp_all
  have ue: "unboundedFace g1 = unboundedFace g" using f1 by (simp add: sameFrame_def)
  show f2: "sameFrame g ?g2" using sameFrame_trans[OF f1] by simp
  then have eq: "faces ?g2 = faces g" "unboundedFace ?g2 = unboundedFace g"
    by (simp_all add: sameFrame_def)
  have nf: "nullFaces ?g2 = set (faces g) - {unboundedFace g}"
    unfolding nullFaces_def eq by (auto simp: filled_setFilled fl ue)
  have "card (set (faces g)) = Suc (card (set (faces g) - {unboundedFace g}))"
    using u by (intro card.remove) simp_all
  then have cn: "n - 1 = int (card (nullFaces ?g2))"
    using n d by (simp add: nf distinct_card)
  have r: "reachableFace ?g2 (unboundedFace g)"
    using reachableFace.unbounded[of ?g2] by (simp add: eq)
  show "fillInv (?g2, n - 1)"
    unfolding fillInv_def prod.case eq
    using sameFrame_facesAssigned[OF f2] fa cn r
    by (auto simp: filled_setFilled fl ue)
qed

lemmas run_fill =
  fillAlternatingFaces_def clearFilled_def fillStep_def setFilled_def halfFace_def
  forwardHalf_def reversedHalf_def

lemma triangle_fill:
  "fillAlternatingFaces triangleGraph
     = Some (Inr (setFilled 7 (Some True) (setFilled 0 (Some False) (setFilled 7 None triangleGraph))))"
  by (simp add: run_fill triangleGraph_def fillLoop.simps)

lemma stranded_unreachable: "\<not> reachableFace strandedGraph 7"
proof
  assume "reachableFace strandedGraph 7"
  then show False
    by (cases rule: reachableFace.cases) (simp_all add: strandedGraph_def triangleGraph_def)
qed

subsection \<open>Splitting edges at intersections\<close>

lemma intersectWith_Some:
  "intersectWith env g aEdge bs = Some (bEdge, x) \<Longrightarrow>
     bEdge \<in> set bs
     \<and> x \<in> set (intersect env (segment (edgeObj g aEdge)) (segment (edgeObj g bEdge)))
     \<and> keepIntersection x"
proof (induction bs)
  case Nil
  then show ?case by simp
next
  case (Cons b bs)
  show ?case
  proof (cases "filter keepIntersection
             (intersect env (segment (edgeObj g aEdge)) (segment (edgeObj g b)))")
    case Nil
    then show ?thesis using Cons by simp
  next
    case (Cons y ys)
    then have "y \<in> set (filter keepIntersection
             (intersect env (segment (edgeObj g aEdge)) (segment (edgeObj g b))))" by simp
    then have "y \<in> set (intersect env (segment (edgeObj g aEdge)) (segment (edgeObj g b)))"
      and "keepIntersection y" by simp_all
    moreover have "b = bEdge" "y = x" using Cons.prems Cons by simp_all
    ultimately show ?thesis by simp
  qed
qed

lemma intersectWith_None:
  "intersectWith env g aEdge bs = None \<longleftrightarrow>
     (\<forall>b \<in> set bs. \<forall>x \<in> set (intersect env (segment (edgeObj g aEdge)) (segment (edgeObj g b))).
        \<not> keepIntersection x)"
proof (induction bs)
  case Nil
  then show ?case by simp
next
  case (Cons b bs)
  show ?case
  proof (cases "filter keepIntersection
             (intersect env (segment (edgeObj g aEdge)) (segment (edgeObj g b)))")
    case Nil
    then have "\<forall>x \<in> set (intersect env (segment (edgeObj g aEdge)) (segment (edgeObj g b))).
        \<not> keepIntersection x" by (simp add: filter_empty_conv)
    then show ?thesis using Nil Cons.IH by simp
  next
    case (Cons y ys)
    then have "y \<in> set (filter keepIntersection
             (intersect env (segment (edgeObj g aEdge)) (segment (edgeObj g b))))" by simp
    then show ?thesis using Cons by auto
  qed
qed

lemma findIntersection_Some:
  "findIntersection env g es = Some (aEdge, bEdge, x) \<Longrightarrow>
     (\<exists>pre post. es = pre @ aEdge # post \<and> bEdge \<in> set post)
     \<and> x \<in> set (intersect env (segment (edgeObj g aEdge)) (segment (edgeObj g bEdge)))
     \<and> keepIntersection x"
proof (induction es)
  case Nil
  then show ?case by simp
next
  case (Cons e es)
  show ?case
  proof (cases "intersectWith env g e es")
    case None
    then have r: "findIntersection env g es = Some (aEdge, bEdge, x)" using Cons.prems by simp
    from Cons.IH[OF r] obtain pre post where "es = pre @ aEdge # post" "bEdge \<in> set post"
      by blast
    then have "e # es = (e # pre) @ aEdge # post \<and> bEdge \<in> set post" by simp
    then show ?thesis using Cons.IH[OF r] by blast
  next
    case (Some bx)
    then have eq: "e = aEdge" "bx = (bEdge, x)" using Cons.prems by (auto split: prod.splits)
    from intersectWith_Some[of env g e es bEdge x] Some eq
    have "bEdge \<in> set es" "x \<in> set (intersect env (segment (edgeObj g aEdge)) (segment (edgeObj g bEdge)))"
      "keepIntersection x" by simp_all
    moreover have "e # es = [] @ aEdge # es" using eq by simp
    ultimately show ?thesis by blast
  qed
qed

lemma findIntersection_None:
  "(\<forall>a \<in> set es. \<forall>b \<in> set es.
      \<forall>x \<in> set (intersect env (segment (edgeObj g a)) (segment (edgeObj g b))). \<not> keepIntersection x)
   \<Longrightarrow> findIntersection env g es = None"
proof (induction es)
  case Nil
  then show ?case by simp
next
  case (Cons e es)
  have "intersectWith env g e es = None"
    unfolding intersectWith_None using Cons.prems by simp
  then show ?case using Cons by simp
qed

lemma isInternal_distance:
  "0 \<le> t \<Longrightarrow> t \<le> 1 \<Longrightarrow> isInternal t \<longleftrightarrow> \<bar>t - 0\<bar> > 1 / 100000 \<and> \<bar>t - 1\<bar> > 1 / 100000"
  by (auto simp: isInternal_def)

lemma simpleSplit_cases:
  "simpleSplit env aEdge bEdge ta tb p g =
     (if isInternal ta \<and> isInternal tb
      then splitEdge env bEdge tb (fst (pushVertex p g))
             (splitEdge env aEdge ta (fst (pushVertex p g)) (snd (pushVertex p g)))
      else if isInternal ta then splitEdge env aEdge ta (nearerVertex g bEdge tb) g
      else if isInternal tb then splitEdge env bEdge tb (nearerVertex g aEdge ta) g
      else g)"
  by (simp add: simpleSplit_def nearerVertex_def Let_def split: prod.splits)

lemma pushVertex_eq:
  "pushVertex p g =
     (nextId g, g\<lparr>vertexObj := (vertexObj g)(nextId g := \<lparr>point = p, incidentHalfEdges = []\<rparr>),
                 nextId := Suc (nextId g), vertices := vertices g @ [nextId g]\<rparr>)"
  by (simp add: pushVertex_def createVertex_def)

lemma splitEdge_effect:
  "edges (splitEdge env e t v g) = remove1 e (edges g) @ [nextId g, Suc (nextId g)]
   \<and> vertices (splitEdge env e t v g) = vertices g
   \<and> nextId (splitEdge env e t v g) = Suc (Suc (nextId g))
   \<and> edgeObj (splitEdge env e t v g) (nextId g)
       = \<lparr>segment = fst (subdivided env (segment (edgeObj g e)) t),
          startVertex = startVertex (edgeObj g e), endVertex = v,
          forwardFace = None, reversedFace = None\<rparr>
   \<and> edgeObj (splitEdge env e t v g) (Suc (nextId g))
       = \<lparr>segment = snd (subdivided env (segment (edgeObj g e)) t),
          startVertex = v, endVertex = endVertex (edgeObj g e),
          forwardFace = None, reversedFace = None\<rparr>
   \<and> loops (splitEdge env e t v g)
       = map (\<lambda>l. l\<lparr>halfEdges := replaceInLoop e
                [forwardHalf (nextId g), forwardHalf (Suc (nextId g))] (halfEdges l)\<rparr>) (loops g)"
  by (simp add: splitEdge_def Let_def createEdge_def replaceEdgeInLoops_def)

lemma frame_pushVertex [simp]:
  "fst (pushVertex p g) = nextId g"
  "edges (snd (pushVertex p g)) = edges g"
  "vertices (snd (pushVertex p g)) = vertices g @ [nextId g]"
  "nextId (snd (pushVertex p g)) = Suc (nextId g)"
  "edgeObj (snd (pushVertex p g)) = edgeObj g"
  "loops (snd (pushVertex p g)) = loops g"
  by (simp_all add: pushVertex_eq)

lemma cross_found:
  "findIntersection (planeEnv False crossIntersect (\<lambda>_ _. [])) crossGraph (edges crossGraph)
     = Some (5, 6, ((Num 1, Num 1), \<lparr>aT = 1 / 2, bT = 1 / 2\<rparr>))"
  by (simp add: crossGraph_def crossIntersect_def planeEnv_def keepIntersection_def isInternal_def)

lemma cross_split:
  "edges (simpleSplit env 5 6 (1 / 2) (1 / 2) p crossGraph) = [8, 9, 10, 11]"
  "vertices (simpleSplit env 5 6 (1 / 2) (1 / 2) p crossGraph) = [1, 2, 3, 4, 7]"
proof -
  have i: "isInternal (1 / 2)" by (simp add: isInternal_def)
  have c: "edges crossGraph = [5, 6]" "vertices crossGraph = [1, 2, 3, 4]" "nextId crossGraph = 7"
    by (simp_all add: crossGraph_def)
  show "edges (simpleSplit env 5 6 (1 / 2) (1 / 2) p crossGraph) = [8, 9, 10, 11]"
    unfolding simpleSplit_cases using i by (simp add: splitEdge_effect c)
  show "vertices (simpleSplit env 5 6 (1 / 2) (1 / 2) p crossGraph) = [1, 2, 3, 4, 7]"
    unfolding simpleSplit_cases using i by (simp add: splitEdge_effect c)
qed

subsection \<open>Splitting overlapping edges\<close>

lemma createEdge_frame:
  "fst (createEdge s v w g) = nextId g"
  "edges (snd (createEdge s v w g)) = edges g"
  "vertices (snd (createEdge s v w g)) = vertices g"
  "loops (snd (createEdge s v w g)) = loops g"
  "nextId (snd (createEdge s v w g)) = Suc (nextId g)"
  by (simp_all add: createEdge_def)

lemma addPiece_frame:
  "optionList (fst (addPiece piece v w g)) = pieceEdge (nextId g) piece"
  "nextId (snd (addPiece piece v w g)) = nextId g + length (pieceEdge (nextId g) piece)"
  "edges (snd (addPiece piece v w g)) = edges g @ pieceEdge (nextId g) piece"
  "vertices (snd (addPiece piece v w g)) = vertices g"
  "loops (snd (addPiece piece v w g)) = loops g"
  "e < nextId g \<Longrightarrow> edgeObj (snd (addPiece piece v w g)) e = edgeObj g e"
  by (simp_all add: addPiece_def createEdge_def split_beta optionList_def pieceEdge_def
        split: option.splits)

lemma addOverlapEdges_result:
  fixes g :: "('p, 's) graph" and aBefore aAfter bBefore bAfter :: "'s option"
  defines "m \<equiv> nextId g"
  defines "ab \<equiv> pieceEdge (Suc m) aBefore"
  defines "aa \<equiv> pieceEdge (Suc m + length ab) aAfter"
  defines "bb \<equiv> pieceEdge (Suc m + length ab + length aa) bBefore"
  defines "ba \<equiv> pieceEdge (Suc m + length ab + length aa + length bb) bAfter"
  shows "\<exists>g'. addOverlapEdges ov aStart aEnd bStart bEnd aBefore bBefore aAfter bAfter middle
             beforeVertex afterVertex g
           = (m # ab @ aa @ bb @ ba,
              map forwardHalf (ab @ [m] @ aa),
              map forwardHalf bb
                @ [if overlapA ov > 0 then forwardHalf m else reversedHalf m]
                @ map forwardHalf ba,
              g')
         \<and> edges g' = edges g @ m # ab @ aa @ bb @ ba
         \<and> vertices g' = vertices g
         \<and> loops g' = loops g
         \<and> edgeObj g' m = \<lparr>segment = middle, startVertex = beforeVertex,
               endVertex = afterVertex, forwardFace = None, reversedFace = None\<rparr>"
proof -
  define g5 where "g5 = addEdge m (snd (createEdge middle beforeVertex afterVertex g))"
  define p6 where "p6 = addPiece aBefore aStart beforeVertex g5"
  define p7 where "p7 = addPiece aAfter afterVertex aEnd (snd p6)"
  define p8 where "p8 = addPiece bBefore bStart (if overlapA ov > 0 then beforeVertex else afterVertex) (snd p7)"
  define p9 where "p9 = addPiece bAfter (if overlapA ov > 0 then afterVertex else beforeVertex) bEnd (snd p8)"
  have parts: "addOverlapEdges ov aStart aEnd bStart bEnd aBefore bBefore aAfter bAfter middle
             beforeVertex afterVertex g =
     (m # optionList (fst p6) @ optionList (fst p7) @ optionList (fst p8) @ optionList (fst p9),
      map forwardHalf (optionList (fst p6) @ [m] @ optionList (fst p7)),
      map (\<lambda>e. if e \<noteq> m \<or> overlapA ov > 0 then forwardHalf e else reversedHalf e)
          (optionList (fst p8) @ [m] @ optionList (fst p9)),
      snd p9)"
    unfolding addOverlapEdges_def Let_def split_beta p9_def p8_def p7_def p6_def g5_def m_def
      createEdge_frame ..
  have e5: "edges g5 = edges g @ [m]" "nextId g5 = Suc m" "vertices g5 = vertices g"
    "loops g5 = loops g"
    by (simp_all add: g5_def m_def createEdge_frame)
  have o5: "edgeObj g5 m = \<lparr>segment = middle, startVertex = beforeVertex,
               endVertex = afterVertex, forwardFace = None, reversedFace = None\<rparr>"
    by (simp add: g5_def m_def createEdge_def)
  have i6: "optionList (fst p6) = ab" and n6: "nextId (snd p6) = Suc m + length ab"
    unfolding p6_def addPiece_frame e5 ab_def by simp_all
  have i7: "optionList (fst p7) = aa" and n7: "nextId (snd p7) = Suc m + length ab + length aa"
    unfolding p7_def addPiece_frame n6 aa_def by simp_all
  have i8: "optionList (fst p8) = bb"
    and n8: "nextId (snd p8) = Suc m + length ab + length aa + length bb"
    unfolding p8_def addPiece_frame n7 bb_def by simp_all
  have i9: "optionList (fst p9) = ba"
    unfolding p9_def addPiece_frame n8 ba_def by simp
  have e9: "edges (snd p9) = edges g @ m # ab @ aa @ bb @ ba"
    unfolding p9_def addPiece_frame(3) n8 ba_def[symmetric]
    unfolding p8_def addPiece_frame(3) n7 bb_def[symmetric]
    unfolding p7_def addPiece_frame(3) n6 aa_def[symmetric]
    unfolding p6_def addPiece_frame(3) e5 ab_def[symmetric]
    by simp
  have v9: "vertices (snd p9) = vertices g" "loops (snd p9) = loops g"
    by (simp_all add: p9_def p8_def p7_def p6_def addPiece_frame(4,5) e5)
  have o6: "edgeObj (snd p6) m = edgeObj g5 m"
    unfolding p6_def by (rule addPiece_frame(6)) (simp add: e5)
  have o7: "edgeObj (snd p7) m = edgeObj (snd p6) m"
    unfolding p7_def by (rule addPiece_frame(6)) (simp add: n6)
  have o8: "edgeObj (snd p8) m = edgeObj (snd p7) m"
    unfolding p8_def by (rule addPiece_frame(6)) (simp add: n7)
  have o9: "edgeObj (snd p9) m = edgeObj g5 m"
    unfolding p9_def o6[symmetric] o7[symmetric] o8[symmetric]
    by (rule addPiece_frame(6)) (simp add: n8)
  have mnot: "m \<notin> set bb" "m \<notin> set ba"
    by (simp_all add: bb_def ba_def pieceEdge_def split: option.splits)
  have bmap: "map (\<lambda>e. if e \<noteq> m \<or> overlapA ov > 0 then forwardHalf e else reversedHalf e)
          (bb @ [m] @ ba)
        = map forwardHalf bb
                @ [if overlapA ov > 0 then forwardHalf m else reversedHalf m]
                @ map forwardHalf ba"
    using mnot by (auto simp: map_eq_conv)
  show ?thesis
    apply (rule exI[of _ "snd p9"])
    unfolding parts i6 i7 i8 i9 bmap
    using e9 v9 o9 o5 by simp
qed

lemma overlapVertex_frame:
  "fst (overlapVertex both p reused g) = (if both then nextId g else reused)"
  "edges (snd (overlapVertex both p reused g)) = edges g"
  "loops (snd (overlapVertex both p reused g)) = loops g"
  "nextId (snd (overlapVertex both p reused g)) = nextId g + (if both then 1 else 0)"
  "vertices (snd (overlapVertex both p reused g)) = vertices g @ (if both then [nextId g] else [])"
  by (simp_all add: overlapVertex_def)

lemma splitOverlapParts_result:
  fixes g :: "('p, 's) graph" and aB aA bB bA :: "'s option"
  assumes pieces: "overlapPieces env (segment (edgeObj g aEdge)) (segment (edgeObj g bEdge)) ov
             = (aB, bB, aA, bA, mid)"
    and vb: "vb = (if aB \<noteq> None \<and> bB \<noteq> None then [nextId g] else [])"
    and va: "va = (if aA \<noteq> None \<and> bA \<noteq> None then [nextId g + length vb] else [])"
    and m: "m = nextId g + length vb + length va"
    and ab: "ab = pieceEdge (Suc m) aB"
    and aa: "aa = pieceEdge (Suc m + length ab) aA"
    and bb: "bb = pieceEdge (Suc m + length ab + length aa) bB"
    and ba: "ba = pieceEdge (Suc m + length ab + length aa + length bb) bA"
  shows "\<exists>g'. splitOverlapParts env aEdge bEdge ov g
           = (m # ab @ aa @ bb @ ba,
              map forwardHalf (ab @ [m] @ aa),
              map forwardHalf bb
                @ [if overlapA ov > 0 then forwardHalf m else reversedHalf m]
                @ map forwardHalf ba,
              g')
         \<and> edges g' = remove1 bEdge (remove1 aEdge (edges g)) @ m # ab @ aa @ bb @ ba
         \<and> vertices g' = vertices g @ vb @ va
         \<and> loops g' = loops g
         \<and> segment (edgeObj g' m) = mid"
proof -
  define g1 where "g1 = removeEdge bEdge (removeEdge aEdge g)"
  define p2 where "p2 = overlapVertex (aB \<noteq> None \<and> bB \<noteq> None) (segStart env mid)
              (if aB \<noteq> None then (if overlapA ov > 0 then startVertex (edgeObj g bEdge)
                 else endVertex (edgeObj g bEdge)) else startVertex (edgeObj g aEdge)) g1"
  define p3 where "p3 = overlapVertex (aA \<noteq> None \<and> bA \<noteq> None) (segEnd env mid)
              (if aA \<noteq> None then (if overlapA ov > 0 then endVertex (edgeObj g bEdge)
                 else startVertex (edgeObj g bEdge)) else endVertex (edgeObj g aEdge)) (snd p2)"
  have parts: "splitOverlapParts env aEdge bEdge ov g =
      addOverlapEdges ov (startVertex (edgeObj g aEdge)) (endVertex (edgeObj g aEdge))
        (startVertex (edgeObj g bEdge)) (endVertex (edgeObj g bEdge)) aB bB aA bA mid
        (fst p2) (fst p3) (snd p3)"
    unfolding splitOverlapParts_def Let_def pieces prod.case p3_def p2_def g1_def
    by (simp only: split_beta fst_conv snd_conv)
  have f1: "edges g1 = remove1 bEdge (remove1 aEdge (edges g))" "nextId g1 = nextId g"
    "vertices g1 = vertices g" "loops g1 = loops g"
    by (simp_all add: g1_def)
  have f2: "edges (snd p2) = remove1 bEdge (remove1 aEdge (edges g))"
    "nextId (snd p2) = nextId g + length vb" "vertices (snd p2) = vertices g @ vb"
    "loops (snd p2) = loops g"
    unfolding p2_def overlapVertex_frame f1 vb by simp_all
  have f3: "edges (snd p3) = remove1 bEdge (remove1 aEdge (edges g))"
    "nextId (snd p3) = m" "vertices (snd p3) = vertices g @ vb @ va"
    "loops (snd p3) = loops g"
    unfolding p3_def overlapVertex_frame f2 va m by simp_all
  from addOverlapEdges_result[of ov "startVertex (edgeObj g aEdge)" "endVertex (edgeObj g aEdge)"
        "startVertex (edgeObj g bEdge)" "endVertex (edgeObj g bEdge)" aB bB aA bA mid
        "fst p2" "fst p3" "snd p3"]
  show ?thesis
    unfolding parts f3 ab aa bb ba by auto
qed

lemma overlapWith_Some:
  "overlapWith env g aEdge bs = Some (bEdge, ov) \<Longrightarrow>
     bEdge \<in> set bs
     \<and> ov \<in> set (pairOverlaps env (segment (edgeObj g aEdge)) (segment (edgeObj g bEdge)))
     \<and> significantOverlap ov"
proof (induction bs)
  case Nil
  then show ?case by simp
next
  case (Cons b bs)
  show ?case
  proof (cases "filter significantOverlap
             (pairOverlaps env (segment (edgeObj g aEdge)) (segment (edgeObj g b)))")
    case Nil
    then show ?thesis using Cons by simp
  next
    case (Cons y ys)
    then have "y \<in> set (filter significantOverlap
             (pairOverlaps env (segment (edgeObj g aEdge)) (segment (edgeObj g b))))" by simp
    then have "y \<in> set (pairOverlaps env (segment (edgeObj g aEdge)) (segment (edgeObj g b)))"
      and "significantOverlap y" by simp_all
    moreover have "b = bEdge" "y = ov" using Cons.prems Cons by simp_all
    ultimately show ?thesis by simp
  qed
qed

lemma findOverlap_Some:
  "findOverlap env g es = Some (aEdge, bEdge, ov) \<Longrightarrow>
     (\<exists>pre post. es = pre @ aEdge # post \<and> bEdge \<in> set post)
     \<and> ov \<in> set (pairOverlaps env (segment (edgeObj g aEdge)) (segment (edgeObj g bEdge)))
     \<and> significantOverlap ov"
proof (induction es)
  case Nil
  then show ?case by simp
next
  case (Cons e es)
  show ?case
  proof (cases "overlapWith env g e es")
    case None
    then have r: "findOverlap env g es = Some (aEdge, bEdge, ov)" using Cons.prems by simp
    from Cons.IH[OF r] obtain pre post where "es = pre @ aEdge # post" "bEdge \<in> set post"
      by blast
    then have "e # es = (e # pre) @ aEdge # post \<and> bEdge \<in> set post" by simp
    then show ?thesis using Cons.IH[OF r] by blast
  next
    case (Some bx)
    then have eq: "e = aEdge" "bx = (bEdge, ov)" using Cons.prems by (auto split: prod.splits)
    from overlapWith_Some[of env g e es bEdge ov] Some eq
    have "bEdge \<in> set es"
      "ov \<in> set (pairOverlaps env (segment (edgeObj g aEdge)) (segment (edgeObj g bEdge)))"
      "significantOverlap ov" by simp_all
    moreover have "e # es = [] @ aEdge # es" using eq by simp
    ultimately show ?thesis by blast
  qed
qed

lemma snap_contract:
  assumes "0 \<le> lo" "lo \<le> hi" "hi \<le> 1" "\<bar>hi - lo\<bar> > 1 / 100000"
  shows "snapLow lo = snapToEnds lo" "snapHigh hi = snapToEnds hi"
  using assms by (auto simp: snapLow_def snapHigh_def snapToEnds_def)

lemma overlap_found:
  "findOverlap (planeEnv False (\<lambda>_ _. []) lineOverlaps) overlapGraph (edges overlapGraph)
     = Some (5, 6, \<lparr>t0 = 1 / 2, t1 = 1 - 1 / 1000000, qt0 = 1 / 1000000, qt1 = 1 / 2,
                    overlapA = 1\<rparr>)"
  by (simp add: overlapGraph_def lineOverlaps_def planeEnv_def pairOverlaps_def significantOverlap_def)

lemma overlap_frame:
  "segment (edgeObj overlapGraph 5) = Line (Num 0, Num 0) (Num 2, Num 0)"
  "segment (edgeObj overlapGraph 6) = Line (Num 1, Num 0) (Num 3, Num 0)"
  "edges overlapGraph = [5, 6]" "nextId overlapGraph = 7"
  "loops overlapGraph = [\<lparr>shapeId = 0, halfEdges = [forwardHalf 5]\<rparr>,
               \<lparr>shapeId = 1, halfEdges = [reversedHalf 6]\<rparr>]"
  by (simp_all add: overlapGraph_def)

lemma overlap_snapped:
  "snapToEnds (1 / 2) = 1 / 2" "snapToEnds (1 - 1 / 1000000) = 1" "snapToEnds (1 / 1000000) = 0"
  "snapToEnds (999999 / 1000000) = 1"
  by (simp_all add: snapToEnds_def)

lemma overlap_cut:
  "fst (subdivided (planeEnv False (\<lambda>_ _. []) lineOverlaps)
          (Line (Num 0, Num 0) (Num 2, Num 0)) (1 / 2)) = Line (Num 0, Num 0) (Num 1, Num 0)"
  "snd (subdivided (planeEnv False (\<lambda>_ _. []) lineOverlaps)
          (Line (Num 0, Num 0) (Num 2, Num 0)) (1 / 2)) = Line (Num 1, Num 0) (Num 2, Num 0)"
  "snd (subdivided (planeEnv False (\<lambda>_ _. []) lineOverlaps)
          (Line (Num 1, Num 0) (Num 3, Num 0)) (1 / 2)) = Line (Num 2, Num 0) (Num 3, Num 0)"
  by (simp_all add: planeEnv_def lineSubdivided_def positionAt_def numSub_def)

lemma overlap_replaced:
  "replaceInLoop 6 [forwardHalf 7, forwardHalf 9]
     (replaceInLoop 5 [forwardHalf 8, forwardHalf 7] [forwardHalf 5])
     = [forwardHalf 8, forwardHalf 7]"
  "replaceInLoop 6 [forwardHalf 7, forwardHalf 9]
     (replaceInLoop 5 [forwardHalf 8, forwardHalf 7] [reversedHalf 6])
     = [reversedHalf 9, reversedHalf 7]"
  by (simp_all add: replaceInLoop_def forwardHalf_def reversedHalf_def getReversed_def)

subsection \<open>Collapsing close vertices\<close>

lemma numLess_atLeast: "\<not> numLess d (Num vertexEpsilon) \<longleftrightarrow> d = NaN \<or> atLeastEpsilon d"
  by (cases d) (auto simp: atLeastEpsilon_def)

lemma closeTo_None:
  "closeTo env g v ws = None \<longleftrightarrow>
     list_all (\<lambda>w. \<not> numLess (vertexDistance env g v w) (Num vertexEpsilon)) ws"
  by (induction ws) (simp_all add: vertexDistance_def)

lemma closeTo_Some:
  "closeTo env g v ws = Some w \<Longrightarrow>
     w \<in> set ws \<and> numLess (vertexDistance env g v w) (Num vertexEpsilon)"
  by (induction ws) (auto simp: vertexDistance_def split: if_splits)

lemma findClose_None:
  "findClose env g vs = None \<longleftrightarrow>
     apartVertices (\<lambda>v w. \<not> numLess (vertexDistance env g v w) (Num vertexEpsilon)) vs"
proof (induction vs)
  case Nil
  then show ?case by simp
next
  case (Cons v vs)
  show ?case
  proof (cases "closeTo env g v vs")
    case None
    then show ?thesis using Cons closeTo_None[of env g v vs] by simp
  next
    case (Some w)
    then have "closeTo env g v vs \<noteq> None" by simp
    then have "\<not> list_all (\<lambda>w. \<not> numLess (vertexDistance env g v w) (Num vertexEpsilon)) vs"
      unfolding closeTo_None .
    then show ?thesis using Some by simp
  qed
qed

lemma findClose_Some:
  "findClose env g vs = Some (v, w) \<Longrightarrow>
     (\<exists>pre post. vs = pre @ v # post \<and> w \<in> set post)
     \<and> numLess (vertexDistance env g v w) (Num vertexEpsilon)"
proof (induction vs)
  case Nil
  then show ?case by simp
next
  case (Cons u vs)
  show ?case
  proof (cases "closeTo env g u vs")
    case None
    then have r: "findClose env g vs = Some (v, w)" using Cons.prems by simp
    from Cons.IH[OF r] obtain pre post where "vs = pre @ v # post" "w \<in> set post" by blast
    then have "u # vs = (u # pre) @ v # post \<and> w \<in> set post" by simp
    then show ?thesis using Cons.IH[OF r] by blast
  next
    case (Some x)
    then have eq: "u = v" "x = w" using Cons.prems by simp_all
    from closeTo_Some[of env g u vs x] Some eq
    have "w \<in> set vs" "numLess (vertexDistance env g v w) (Num vertexEpsilon)" by simp_all
    moreover have "u # vs = [] @ v # vs" using eq by simp
    ultimately show ?thesis by blast
  qed
qed

lemma replaceInLoop_Nil: "replaceInLoop e [] hs = filter (\<lambda>h. fst h \<noteq> e) hs"
  by (induction hs) (simp_all add: replaceInLoop_def)

lemma collapseEdge_frame:
  "vertices (collapseEdge aVertex bVertex newVertex e g) = vertices g"
  "point (vertexObj (collapseEdge aVertex bVertex newVertex e g) v) = point (vertexObj g v)"
  "edges (collapseEdge aVertex bVertex newVertex e g)
     = (if bothInPair g aVertex bVertex e then remove1 e (edges g) else edges g)"
  "loops (collapseEdge aVertex bVertex newVertex e g)
     = (if bothInPair g aVertex bVertex e
        then map (\<lambda>l. l\<lparr>halfEdges := filter (\<lambda>h. fst h \<noteq> e) (halfEdges l)\<rparr>) (loops g)
        else loops g)"
  "e' \<noteq> e \<Longrightarrow> edgeObj (collapseEdge aVertex bVertex newVertex e g) e' = edgeObj g e'"
  by (auto simp: collapseEdge_def bothInPair_def Let_def replaceEdgeInLoops_def replaceInLoop_Nil
        pushIncident_def)

lemma bothInPair_collapseEdge:
  "e' \<noteq> e \<Longrightarrow> bothInPair (collapseEdge aVertex bVertex newVertex e g) aVertex bVertex e'
     = bothInPair g aVertex bVertex e'"
  by (simp add: bothInPair_def collapseEdge_frame(5))

lemma collapseEdges_defined:
  "k \<le> length (edges g) \<Longrightarrow>
     \<exists>g'. collapseEdges aVertex bVertex newVertex k g = Inr g' \<and> vertices g' = vertices g
        \<and> (\<forall>v. point (vertexObj g' v) = point (vertexObj g v))"
proof (induction k arbitrary: g)
  case 0
  then show ?case by simp
next
  case (Suc k)
  let ?g1 = "collapseEdge aVertex bVertex newVertex (edges g ! k) g"
  have k: "k < length (edges g)" using Suc.prems by simp
  then have "edges g ! k \<in> set (edges g)" by simp
  then have "k \<le> length (edges ?g1)"
    using k by (auto simp: collapseEdge_frame(3) length_remove1)
  from Suc.IH[OF this] show ?case using k by (simp add: collapseEdge_frame)
qed

lemma remove1_nth:
  "distinct xs \<Longrightarrow> k < length xs \<Longrightarrow> remove1 (xs ! k) xs = take k xs @ drop (Suc k) xs"
proof (induction xs arbitrary: k)
  case Nil
  then show ?case by simp
next
  case (Cons x xs)
  show ?case
  proof (cases k)
    case 0
    then show ?thesis by simp
  next
    case (Suc j)
    then have "xs ! j \<noteq> x" using Cons.prems by auto
    then show ?thesis using Suc Cons by simp
  qed
qed

lemma collapseEdges_result:
  assumes "k \<le> length (edges g)" and "distinct (edges g)"
  shows "\<exists>g'. collapseEdges aVertex bVertex newVertex k g = Inr g'
        \<and> edges g' = filter (\<lambda>e. \<not> bothInPair g aVertex bVertex e) (take k (edges g))
                        @ drop k (edges g)
        \<and> loops g' = map (\<lambda>l. l\<lparr>halfEdges :=
                           filter (\<lambda>h. \<not> (fst h \<in> set (take k (edges g))
                                           \<and> bothInPair g aVertex bVertex (fst h)))
                                  (halfEdges l)\<rparr>) (loops g)"
  using assms
proof (induction k arbitrary: g)
  case 0
  have "map (\<lambda>l. l\<lparr>halfEdges := halfEdges l\<rparr>) (loops g) = loops g"
    by (induction "loops g") simp_all
  then show ?case by simp
next
  case (Suc k)
  let ?e = "edges g ! k"
  let ?g1 = "collapseEdge aVertex bVertex newVertex ?e g"
  let ?B = "bothInPair g aVertex bVertex"
  have k: "k < length (edges g)" using Suc.prems by simp
  have mem: "?e \<in> set (edges g)" using k by simp
  have rem: "remove1 ?e (edges g) = take k (edges g) @ drop (Suc k) (edges g)"
    by (rule remove1_nth[OF Suc.prems(2) k])
  have notin: "?e \<notin> set (take k (edges g))"
  proof
    assume "?e \<in> set (take k (edges g))"
    then obtain i where "i < k" "edges g ! i = ?e"
      using k by (auto simp: in_set_conv_nth)
    then show False using Suc.prems(2) k by (simp add: nth_eq_iff_index_eq)
  qed
  have tk: "take k (edges ?g1) = take k (edges g)"
    using k by (simp add: collapseEdge_frame(3) rem)
  have dk: "drop k (edges ?g1) = (if ?B ?e then drop (Suc k) (edges g) else drop k (edges g))"
    using k by (simp add: collapseEdge_frame(3) rem)
  have le: "k \<le> length (edges ?g1)"
    using k mem by (auto simp: collapseEdge_frame(3) length_remove1)
  have di: "distinct (edges ?g1)"
    using Suc.prems(2) by (simp add: collapseEdge_frame(3))
  have same: "bothInPair ?g1 aVertex bVertex e' = ?B e'" if "e' \<in> set (take k (edges g))" for e'
    using that notin by (intro bothInPair_collapseEdge) auto
  from Suc.IH[OF le di] obtain g' where
    r: "collapseEdges aVertex bVertex newVertex k ?g1 = Inr g'"
    and e: "edges g' = filter (\<lambda>e. \<not> bothInPair ?g1 aVertex bVertex e) (take k (edges ?g1))
                        @ drop k (edges ?g1)"
    and l: "loops g' = map (\<lambda>l. l\<lparr>halfEdges :=
                           filter (\<lambda>h. \<not> (fst h \<in> set (take k (edges ?g1))
                                           \<and> bothInPair ?g1 aVertex bVertex (fst h)))
                                  (halfEdges l)\<rparr>) (loops ?g1)"
    by blast
  have r': "collapseEdges aVertex bVertex newVertex (Suc k) g = Inr g'"
    using r k by simp
  have f1: "filter (\<lambda>e. \<not> bothInPair ?g1 aVertex bVertex e) (take k (edges g))
          = filter (\<lambda>e. \<not> ?B e) (take k (edges g))"
    by (rule filter_cong) (simp_all add: same)
  have ts: "take (Suc k) (edges g) = take k (edges g) @ [?e]"
    using k by (simp add: take_Suc_conv_app_nth)
  have ds: "drop k (edges g) = ?e # drop (Suc k) (edges g)"
    using k by (simp add: Cons_nth_drop_Suc)
  have e': "edges g' = filter (\<lambda>e. \<not> ?B e) (take (Suc k) (edges g)) @ drop (Suc k) (edges g)"
    unfolding e tk dk f1 ts using ds by simp
  have p1: "(\<lambda>h. \<not> (fst h \<in> set (take k (edges g)) \<and> bothInPair ?g1 aVertex bVertex (fst h)))
          = (\<lambda>h. \<not> (fst h \<in> set (take k (edges g)) \<and> ?B (fst h)))"
    using same by auto
  have l': "loops g' = map (\<lambda>l. l\<lparr>halfEdges :=
                           filter (\<lambda>h. \<not> (fst h \<in> set (take (Suc k) (edges g)) \<and> ?B (fst h)))
                                  (halfEdges l)\<rparr>) (loops g)"
  proof (cases "?B ?e")
    case True
    have ff: "filter (\<lambda>h. \<not> (fst h \<in> set (take k (edges g)) \<and> ?B (fst h)))
            (filter (\<lambda>h. fst h \<noteq> ?e) hs)
        = filter (\<lambda>h. \<not> (fst h \<in> set (take (Suc k) (edges g)) \<and> ?B (fst h))) hs" for hs
      unfolding ts using True by (induction hs) auto
    have "loops g' = map (\<lambda>l. l\<lparr>halfEdges :=
                 filter (\<lambda>h. \<not> (fst h \<in> set (take k (edges g)) \<and> ?B (fst h))) (halfEdges l)\<rparr>)
               (map (\<lambda>l. l\<lparr>halfEdges := filter (\<lambda>h. fst h \<noteq> ?e) (halfEdges l)\<rparr>) (loops g))"
      unfolding l tk p1 collapseEdge_frame(4) using True by simp
    also have "\<dots> = map (\<lambda>l. l\<lparr>halfEdges :=
                 filter (\<lambda>h. \<not> (fst h \<in> set (take k (edges g)) \<and> ?B (fst h)))
                   (filter (\<lambda>h. fst h \<noteq> ?e) (halfEdges l))\<rparr>) (loops g)"
      unfolding map_map comp_def by simp
    finally show ?thesis by (simp only: ff)
  next
    case False
    have pp: "(\<lambda>h. \<not> (fst h \<in> set (take k (edges g)) \<and> ?B (fst h)))
        = (\<lambda>h. \<not> (fst h \<in> set (take (Suc k) (edges g)) \<and> ?B (fst h)))"
      unfolding ts using False by auto
    have "loops g' = map (\<lambda>l. l\<lparr>halfEdges :=
                 filter (\<lambda>h. \<not> (fst h \<in> set (take k (edges g)) \<and> ?B (fst h))) (halfEdges l)\<rparr>)
               (loops g)"
      unfolding l tk p1 by (simp only: collapseEdge_frame(4) False if_False)
    then show ?thesis unfolding pp .
  qed
  show ?case using r' e' l' by blast
qed

lemma remove_pair_length:
  assumes "vs = pre @ v # post" and "w \<in> set post"
  shows "remove1 w (remove1 v (vs @ [n])) = remove1 w (remove1 v vs) @ [n]"
    and "Suc (length (remove1 w (remove1 v vs))) = length vs - 1"
    and "length vs \<ge> 2"
proof -
  have v: "v \<in> set vs" using assms by simp
  have w: "w \<in> set (remove1 v vs)"
  proof (cases "v \<in> set pre")
    case True
    then show ?thesis using assms by (simp add: remove1_append)
  next
    case False
    then show ?thesis using assms by (simp add: remove1_append)
  qed
  show "remove1 w (remove1 v (vs @ [n])) = remove1 w (remove1 v vs) @ [n]"
    using v w by (simp add: remove1_append)
  have "length post \<ge> 1" using assms(2) by (cases post) auto
  then show "length vs \<ge> 2" using assms(1) by simp
  then show "Suc (length (remove1 w (remove1 v vs))) = length vs - 1"
    using v w by (simp add: length_remove1)
qed

lemma mergeVertices_result:
  assumes f: "findClose env g (vertices g) = Some (aVertex, bVertex)"
  shows "\<exists>g1. mergeVertices env aVertex bVertex g = Inr g1
        \<and> vertices g1 = remove1 bVertex (remove1 aVertex (vertices g)) @ [nextId g]
        \<and> length (vertices g1) < length (vertices g)
        \<and> point (vertexObj g1 (nextId g))
            = mergedPoint env (point (vertexObj g aVertex)) (point (vertexObj g bVertex))
        \<and> (\<forall>v. v \<noteq> nextId g \<longrightarrow> point (vertexObj g1 v) = point (vertexObj g v))
        \<and> (distinct (edges g) \<longrightarrow>
              edges g1 = filter (\<lambda>e. \<not> bothInPair g aVertex bVertex e) (edges g)
              \<and> loops g1 = map (\<lambda>l. l\<lparr>halfEdges :=
                     filter (\<lambda>h. \<not> (fst h \<in> set (edges g) \<and> bothInPair g aVertex bVertex (fst h)))
                            (halfEdges l)\<rparr>) (loops g))"
proof -
  define p where "p = mergedPoint env (point (vertexObj g aVertex)) (point (vertexObj g bVertex))"
  define g2 where "g2 = (snd (pushVertex p g))
      \<lparr>vertices := remove1 bVertex (remove1 aVertex (vertices (snd (pushVertex p g))))\<rparr>"
  from findClose_Some[OF f] obtain pre post where
    vs: "vertices g = pre @ aVertex # post" "bVertex \<in> set post" by blast
  note rp1 = remove_pair_length(1)[OF vs, of "nextId g"]
  note rp2 = remove_pair_length(2,3)[OF vs]
  have m: "mergeVertices env aVertex bVertex g
             = collapseEdges aVertex bVertex (nextId g) (length (edges g2)) g2"
    unfolding mergeVertices_def Let_def split_beta g2_def p_def mergedPoint_def numEq_Num
    by (simp only: frame_pushVertex)
  have fr: "edges g2 = edges g" "edgeObj g2 = edgeObj g" "loops g2 = loops g"
    "vertices g2 = remove1 bVertex (remove1 aVertex (vertices g)) @ [nextId g]"
    by (simp_all add: g2_def rp1)
  have pt: "point (vertexObj g2 (nextId g)) = p"
    "\<And>v. v \<noteq> nextId g \<Longrightarrow> point (vertexObj g2 v) = point (vertexObj g v)"
    by (simp_all add: g2_def pushVertex_eq)
  have bp: "bothInPair g2 aVertex bVertex = bothInPair g aVertex bVertex"
    by (simp add: bothInPair_def fun_eq_iff fr)
  from collapseEdges_defined[of "length (edges g2)" g2 aVertex bVertex "nextId g"]
  obtain g1 where r: "collapseEdges aVertex bVertex (nextId g) (length (edges g2)) g2 = Inr g1"
    and v1: "vertices g1 = vertices g2"
    and p1: "\<And>v. point (vertexObj g1 v) = point (vertexObj g2 v)"
    by auto
  have len: "length (vertices g1) < length (vertices g)"
    unfolding v1 fr using rp2 by simp
  have ed: "edges g1 = filter (\<lambda>e. \<not> bothInPair g aVertex bVertex e) (edges g)
              \<and> loops g1 = map (\<lambda>l. l\<lparr>halfEdges :=
                     filter (\<lambda>h. \<not> (fst h \<in> set (edges g) \<and> bothInPair g aVertex bVertex (fst h)))
                            (halfEdges l)\<rparr>) (loops g)"
    if d: "distinct (edges g)"
  proof -
    have d2: "distinct (edges g2)" using d fr by simp
    from collapseEdges_result[OF order_refl d2, of aVertex bVertex "nextId g"] r
    show ?thesis unfolding bp fr by simp
  qed
  show ?thesis
    apply (rule exI[of _ g1])
    unfolding m
    using r v1 fr(4) len p1 pt ed p_def by simp
qed

lemma collapseLoop_total:
  "\<exists>g'. collapseLoop env g = Some (Inr g') \<and> findClose env g' (vertices g') = None"
proof (induction "length (vertices g)" arbitrary: g rule: less_induct)
  case less
  show ?case
  proof (cases "findClose env g (vertices g)")
    case None
    then have "collapseLoop env g = Some (Inr g)"
      by (subst collapseLoop.simps) simp
    then show ?thesis using None by blast
  next
    case (Some ab)
    obtain aVertex bVertex where ab: "ab = (aVertex, bVertex)" by (cases ab)
    from mergeVertices_result[OF Some[unfolded ab]] obtain g1 where
      m: "mergeVertices env aVertex bVertex g = Inr g1"
      and l: "length (vertices g1) < length (vertices g)" by blast
    have "collapseLoop env g = collapseLoop env g1"
      by (subst collapseLoop.simps) (simp add: Some ab m)
    then show ?thesis using less[OF l] by simp
  qed
qed

lemma distance_on_axis:
  "distanceVector2 (Num x, Num y) (Num x', Num y) = Num \<bar>x - x'\<bar>"
  by (simp add: distanceVector2_def numSub_def)

lemma gap_frame:
  "vertices gapGraph = [1, 2, 3]" "edges gapGraph = [4, 5]" "nextId gapGraph = 6"
  "loops gapGraph = [\<lparr>shapeId = 0, halfEdges = [forwardHalf 4, forwardHalf 5]\<rparr>]"
  "point (vertexObj gapGraph 1) = (Num 0, Num 0)"
  "point (vertexObj gapGraph 2) = (Num (1 / 1000000), Num 0)"
  "point (vertexObj gapGraph 3) = (Num 1, Num 0)"
  "bothInPair gapGraph 1 2 4" "\<not> bothInPair gapGraph 1 2 5"
  "point (vertexObj gapGraph (Suc 0)) = (Num 0, Num 0)"
  "bothInPair gapGraph (Suc 0) 2 4" "\<not> bothInPair gapGraph (Suc 0) 2 5"
  by (simp_all add: gapGraph_def bothInPair_def)

lemma gap_distance:
  "distanceV (quietEnv False) = distanceVector2"
  "averageV (quietEnv False) = averageVector2"
  "\<not> assertEnabled (quietEnv False)"
  by (simp_all add: quietEnv_def planeEnv_def)

lemma gap_found: "findClose (quietEnv False) gapGraph (vertices gapGraph) = Some (1, 2)"
  by (simp add: gap_frame gap_distance distance_on_axis vertexEpsilon_def)

lemma gap_merged:
  "mergedPoint (quietEnv False) (Num 0, Num 0) (Num (1 / 1000000), Num 0)
     = (Num (1 / 2000000), Num 0)"
  by (simp add: mergedPoint_def gap_distance distance_on_axis averageVector2_def)

section \<open>The claims\<close>

subsection \<open>Ingestion\<close>

text \<open>
  C9. \<^verbatim>\<open>addSubpath\<close> on a subpath without segments returns normally; the shape
  identifier is recorded in \<^verbatim>\<open>shapeIds\<close> (appended when it was absent, otherwise the
  list is as before), and the vertices, the edges, the loops and every vertex and edge
  object are unchanged.
\<close>

theorem addSubpath_without_segments:
  assumes "segments sp = []"
  shows "case addSubpath env sid sp g of
           Inl err \<Rightarrow> False
         | Inr g' \<Rightarrow>
             sid \<in> set (shapeIds g')
             \<and> shapeIds g' = (if sid \<in> set (shapeIds g) then shapeIds g else shapeIds g @ [sid])
             \<and> vertices g' = vertices g \<and> edges g' = edges g \<and> loops g' = loops g
             \<and> vertexObj g' = vertexObj g \<and> edgeObj g' = edgeObj g"
  using assms by (simp add: addSubpath_def addShapeId_def)

theorem addSubpath_without_segments_witness:
  "segments pointOnlySubpath = []
   \<and> (case addSubpath (quietEnv True) 7 pointOnlySubpath emptyGraph of
         Inl err \<Rightarrow> False
       | Inr g' \<Rightarrow> shapeIds g' = [7] \<and> vertices g' = [] \<and> edges g' = [] \<and> loops g' = [])"
  using addSubpath_without_segments [where sp = pointOnlySubpath and env = "quietEnv True" and sid = 7 and g = emptyGraph]
  by (simp add: pointOnlySubpath_def emptyGraph_def split: sum.splits)

text \<open>
  C2, as the claim states it, fails: the open subpath from (0,0) to (1,0), not marked
  closed, is ingested as two edges, its line and the closing line back from (1,0) to (0,0).
\<close>

theorem closing_segment_of_open_subpath_counterexample:
  "\<not> closed openSubpath
   \<and> (case addSubpath (quietEnv False) 0 openSubpath emptyGraph of
         Inl err \<Rightarrow> False
       | Inr g' \<Rightarrow>
           map (\<lambda>e. segment (edgeObj g' e)) (edges g')
             = [Line (Num 0, Num 0) (Num 1, Num 0), Line (Num 1, Num 0) (Num 0, Num 0)])"
  by (simp add: run_ingest openSubpath_def upt_rec)

text \<open>
  C2, amended. When \<^verbatim>\<open>addSubpath\<close> returns, the edges it has added (the old edges stay
  in front) carry the segments of the subpath in order, followed by the closing line from
  the last point to the first point if and only if the subpath has a segment and its first
  point does not equal its last point. The \<^verbatim>\<open>closed\<close> flag is not consulted.
\<close>

theorem closing_segment_iff_endpoints_differ:
  assumes "addSubpath env sid sp g = Inr g'"
  shows "take (length (edges g)) (edges g') = edges g
       \<and> map (\<lambda>e. segment (edgeObj g' e)) (drop (length (edges g)) (edges g'))
           = segments sp @
             (if segments sp \<noteq> [] \<and> \<not> equalsV env (hd (points sp)) (last (points sp))
              then [newLine env (last (points sp)) (hd (points sp))] else [])"
proof (cases "segments sp = []")
  case True
  then show ?thesis using assms by (auto simp: addSubpath_def addShapeId_def)
next
  case False
  from assms False obtain segs where
    s: "subpathSegments env sp = Inr segs"
    and e: "edges g' = edges g @ [nextId g + length segs ..< nextId g + length segs + length segs]"
    and k: "\<forall>k < length segs. segment (edgeObj g' (nextId g + length segs + k)) = segs ! k"
    by (rule addSubpath_Inr)
  have m: "map (\<lambda>e. segment (edgeObj g' e))
             [nextId g + length segs ..< nextId g + length segs + length segs] = segs"
    using k by (intro nth_equalityI) simp_all
  have "segs = segments sp @
             (if \<not> equalsV env (hd (points sp)) (last (points sp))
              then [newLine env (last (points sp)) (hd (points sp))] else [])"
    using s by (auto simp: subpathSegments_eq split: list.splits if_splits)
  then show ?thesis using e m False by simp
qed

theorem closing_segment_iff_endpoints_differ_witness:
  "addSubpath (quietEnv False) 0 openSubpath emptyGraph
     = Inr (projr (addSubpath (quietEnv False) 0 openSubpath emptyGraph))
   \<and> map (\<lambda>e. segment (edgeObj (projr (addSubpath (quietEnv False) 0 openSubpath emptyGraph)) e))
         (drop (length (edges emptyGraph))
           (edges (projr (addSubpath (quietEnv False) 0 openSubpath emptyGraph))))
       = [Line (Num 0, Num 0) (Num 1, Num 0), Line (Num 1, Num 0) (Num 0, Num 0)]"
proof -
  have r: "addSubpath (quietEnv False) 0 openSubpath emptyGraph
     = Inr (projr (addSubpath (quietEnv False) 0 openSubpath emptyGraph))"
    by (simp add: run_ingest openSubpath_def upt_rec)
  show ?thesis
    using r closing_segment_iff_endpoints_differ [OF r]
    by (simp add: openSubpath_def quietEnv_def planeEnv_def equalsVector2_def)
qed

text \<open>
  C3, as the claim states it, fails: a subpath whose only segment lies at infinity is
  ingested without any error, with assertions disabled and with assertions enabled.
\<close>

theorem nonfinite_subpath_ingested_counterexample:
  "\<not> isFiniteVector2 (lineStart (hd (segments infiniteSubpath)))
   \<and> (case addSubpath (quietEnv False) 0 infiniteSubpath emptyGraph of
         Inl err \<Rightarrow> False
       | Inr g' \<Rightarrow> edges g' = [2] \<and> vertices g' = [1])
   \<and> (case addSubpath (quietEnv True) 0 infiniteSubpath emptyGraph of
         Inl err \<Rightarrow> False
       | Inr g' \<Rightarrow> edges g' = [2] \<and> vertices g' = [1])"
  by (simp add: run_ingest infiniteSubpath_def isFiniteVector2_def isFiniteNumber_def upt_rec)

text \<open>
  C3, amended. Ingestion does not look at the finiteness of coordinates. \<^verbatim>\<open>addSubpath\<close>
  fails in exactly two ways: with a type error when the subpath has segments but no point,
  and, only when assertions are enabled, with a failed assertion at a join of consecutive
  segments whose end points are neither equal nor closer than \<open>vertexEpsilon\<close>.
\<close>

theorem addSubpath_fails_iff:
  "addSubpath env sid sp g = Inl err \<longleftrightarrow>
     segments sp \<noteq> [] \<and>
     (points sp = [] \<and> err = TypeError
      \<or> (\<exists>segs. subpathSegments env sp = Inr segs \<and> err = AssertionError \<and> assertEnabled env
                 \<and> (\<exists>i < length segs. inaccurateJoin env segs i)))"
proof (cases "segments sp = []")
  case True
  then show ?thesis by (simp add: addSubpath_def)
next
  case False
  show ?thesis
  proof (cases "points sp")
    case Nil
    then show ?thesis using False by (auto simp: addSubpath_def subpathSegments_eq)
  next
    case (Cons p ps)
    then obtain segs where s: "subpathSegments env sp = Inr segs"
      by (simp add: subpathSegments_eq)
    have "addSubpath env sid sp g = Inl err \<longleftrightarrow>
          joinVertices env segs [0..<length segs] (addShapeId sid g) = Inl err"
      using False s by (auto simp: addSubpath_def Let_def split: sum.splits prod.splits)
    then show ?thesis
      unfolding joinVertices_Inl using False s Cons by auto
  qed
qed

theorem addSubpath_fails_iff_witness:
  "addSubpath (quietEnv True) 0
     \<lparr>points = [(Num 0, Num 0)],
      segments = [Line (Num 0, Num 0) (NaN, Num 0)], closed = False\<rparr> emptyGraph
     = Inl AssertionError
   \<and> (case addSubpath (quietEnv False) 0
     \<lparr>points = [(Num 0, Num 0)],
      segments = [Line (Num 0, Num 0) (NaN, Num 0)], closed = False\<rparr> emptyGraph of
        Inl err \<Rightarrow> False | Inr g' \<Rightarrow> edges g' = [2])"
  using addSubpath_fails_iff [where env = "quietEnv True" and sid = 0 and g = emptyGraph
     and err = AssertionError and sp = "\<lparr>points = [(Num 0, Num 0)],
      segments = [Line (Num 0, Num 0) (NaN, Num 0)], closed = False\<rparr>"]
  by (simp add: run_ingest subpathSegments_eq inaccurateJoin_def distanceVector2_def numSub_def upt_rec)

subsection \<open>Incidence lists\<close>




subsection \<open>Winding maps\<close>




text \<open>
  C7. If every half-edge has a face of the graph and every face of the graph is reachable
  from the unbounded face by stepping across edges, \<^verbatim>\<open>computeWindingMap\<close> terminates;
  when it returns, every face of the graph has a winding map. The only other way for it
  to end is a failed assertion, with assertions enabled.
\<close>

theorem computeWindingMap_terminates:
  assumes "facesAssigned g" and "list_all (reachableFace g) (faces g)"
  shows "\<exists>r. computeWindingMap env g = Some r \<and>
           (case r of
              Inl err \<Rightarrow> assertEnabled env \<and> err = AssertionError
            | Inr g' \<Rightarrow> list_all (solvedFace g') (faces g))"
proof -
  let ?g0 = "setWindingMap (unboundedFace g) (outsideMap (shapeIds g)) g"
  have f0: "sameFrame g ?g0" by simp
  have eq0: "edges ?g0 = edges g" "faces ?g0 = faces g" "unboundedFace ?g0 = unboundedFace g"
    by (simp_all add: setWindingMap_def)
  have "windingInv ?g0 (edges g)"
    unfolding windingInv_def eq0
    using assms sameFrame_facesAssigned[OF f0] sameFrame_reachable[OF f0]
    by (simp add: list_all_iff solvedFace_def windingMap_setWindingMap)
  from windingLoop_terminates[OF this, of env] show ?thesis
    unfolding computeWindingMap_def eq0
    by (auto simp: list_all_iff split: sum.splits)
qed

theorem computeWindingMap_terminates_witness:
  "facesAssigned triangleGraph \<and> list_all (reachableFace triangleGraph) (faces triangleGraph)
   \<and> (\<exists>r. computeWindingMap (quietEnv False) triangleGraph = Some r \<and>
           (case r of
              Inl err \<Rightarrow> False
            | Inr g' \<Rightarrow> solvedFace g' 0 \<and> solvedFace g' 7))"
proof -
  have a: "facesAssigned triangleGraph"
    by (simp add: facesAssigned_def triangleGraph_def halfFace_def forwardHalf_def reversedHalf_def)
  have b: "list_all (reachableFace triangleGraph) (faces triangleGraph)"
    using triangle_reachable by (simp add: triangleGraph_def)
  from computeWindingMap_terminates [OF a b, of "quietEnv False"] obtain r where
    r: "computeWindingMap (quietEnv False) triangleGraph = Some r"
    and c: "case r of
              Inl err \<Rightarrow> assertEnabled (quietEnv False) \<and> err = AssertionError
            | Inr g' \<Rightarrow> list_all (solvedFace g') (faces triangleGraph)"
    by blast
  have n: "\<not> assertEnabled (quietEnv False)" by (simp add: quietEnv_def planeEnv_def)
  have "case r of Inl err \<Rightarrow> False | Inr g' \<Rightarrow> solvedFace g' 0 \<and> solvedFace g' 7"
    using c n by (cases r) (simp_all add: triangleGraph_def)
  then show ?thesis using a b r by blast
qed

subsection \<open>Alternating fill\<close>

text \<open>
  C10. Let the faces of the graph be listed once each, the unbounded face among them, and
  let every half-edge have a face of the graph. Then \<^verbatim>\<open>fillAlternatingFaces\<close> terminates
  if and only if every face of the graph is reachable from the unbounded face by stepping
  across edges. When it terminates it returns normally, the unbounded face is unfilled,
  every face has a boolean \<^verbatim>\<open>filled\<close> value, and every face other than the unbounded one
  has the negation of the value of a face across one of its edges.
\<close>

theorem fillAlternatingFaces_terminates_iff:
  assumes "distinct (faces g)" and "unboundedFace g \<in> set (faces g)" and "facesAssigned g"
  shows "((\<exists>r. fillAlternatingFaces g = Some r) \<longleftrightarrow> list_all (reachableFace g) (faces g))
       \<and> (\<forall>r. fillAlternatingFaces g = Some r \<longrightarrow>
             (\<exists>g'. r = Inr g' \<and> sameFrame g g'
                \<and> filled (faceObj g' (unboundedFace g)) = Some False
                \<and> list_all (\<lambda>f. filled (faceObj g' f) \<noteq> None
                                 \<and> (f = unboundedFace g \<or> oppositeNeighbour g' f)) (faces g)))"
proof -
  obtain g1 n where c: "clearFilled g = (g1, n)" by (cases "clearFilled g")
  let ?g2 = "setFilled (unboundedFace g1) (Some False) g1"
  note inv0 = fillInv_initial(1)[OF assms c] and f2 = fillInv_initial(2)[OF assms c]
  have run: "fillAlternatingFaces g = fillLoop (?g2, n - 1)"
    by (simp add: fillAlternatingFaces_def c)
  have eq2: "faces ?g2 = faces g" using f2 by (simp add: sameFrame_def)
  have ends: "\<exists>g'. r = Inr g' \<and> sameFrame g g'
                \<and> filled (faceObj g' (unboundedFace g)) = Some False
                \<and> list_all (\<lambda>f. filled (faceObj g' f) \<noteq> None
                                 \<and> (f = unboundedFace g \<or> oppositeNeighbour g' f)) (faces g)
                \<and> list_all (reachableFace g) (faces g)"
    if r: "fillAlternatingFaces g = Some r" for r
  proof -
    from fillLoop_partial[OF r[unfolded run]] inv0 obtain g' where
      g': "r = Inr g'" and i: "fillInv (g', 0)" and x: "fillExtends ?g2 g'"
      by auto
    have fr: "sameFrame g g'" using x f2 sameFrame_trans by (auto simp: fillExtends_def)
    then have eq: "faces g' = faces g" "unboundedFace g' = unboundedFace g"
      by (simp_all add: sameFrame_def)
    have z: "filled (faceObj g' f) \<noteq> None \<and> reachableFace g f
         \<and> (f = unboundedFace g \<or> oppositeNeighbour g' f)" if "f \<in> set (faces g)" for f
      using fillInv_zero[OF i, of f] that eq sameFrame_reachable[OF fr] by simp
    have "filled (faceObj g' (unboundedFace g)) = Some False"
      using i eq by (simp add: fillInv_def)
    then show ?thesis using g' fr z by (auto simp: list_all_iff)
  qed
  have runs: "\<exists>r. fillAlternatingFaces g = Some r" if "list_all (reachableFace g) (faces g)"
  proof -
    have "\<forall>f \<in> set (faces ?g2). reachableFace ?g2 f"
      using that sameFrame_reachable[OF f2] eq2 by (simp add: list_all_iff)
    from fillLoop_terminates[OF inv0 this] show ?thesis unfolding run by blast
  qed
  show ?thesis using ends runs by blast
qed

theorem fillAlternatingFaces_terminates_iff_witness:
  "distinct (faces triangleGraph) \<and> unboundedFace triangleGraph \<in> set (faces triangleGraph)
   \<and> facesAssigned triangleGraph
   \<and> list_all (reachableFace triangleGraph) (faces triangleGraph)
   \<and> fillAlternatingFaces triangleGraph
        = Some (Inr (setFilled 7 (Some True) (setFilled 0 (Some False) (setFilled 7 None triangleGraph))))
   \<and> oppositeNeighbour
        (setFilled 7 (Some True) (setFilled 0 (Some False) (setFilled 7 None triangleGraph))) 7
   \<and> fillAlternatingFaces strandedGraph = None"
proof -
  have a': "distinct (faces strandedGraph)"
    and b': "unboundedFace strandedGraph \<in> set (faces strandedGraph)"
    and c': "facesAssigned strandedGraph"
    by (simp_all add: facesAssigned_def strandedGraph_def triangleGraph_def)
  have "\<not> list_all (reachableFace strandedGraph) (faces strandedGraph)"
    using stranded_unreachable by (simp add: strandedGraph_def triangleGraph_def)
  then have n: "fillAlternatingFaces strandedGraph = None"
    using fillAlternatingFaces_terminates_iff [OF a' b' c'] by (cases "fillAlternatingFaces strandedGraph") auto
  have a: "distinct (faces triangleGraph)"
    and b: "unboundedFace triangleGraph \<in> set (faces triangleGraph)"
    and c: "facesAssigned triangleGraph"
    by (simp_all add: facesAssigned_def triangleGraph_def halfFace_def forwardHalf_def reversedHalf_def)
  note t = fillAlternatingFaces_terminates_iff [OF a b c]
  from t triangle_fill have r: "list_all (reachableFace triangleGraph) (faces triangleGraph)"
    by blast
  from t triangle_fill have
    "list_all (\<lambda>f. filled (faceObj (setFilled 7 (Some True) (setFilled 0 (Some False)
                       (setFilled 7 None triangleGraph))) f) \<noteq> None
                  \<and> (f = unboundedFace triangleGraph \<or> oppositeNeighbour
                       (setFilled 7 (Some True) (setFilled 0 (Some False)
                         (setFilled 7 None triangleGraph))) f)) (faces triangleGraph)"
    by blast
  then have o: "oppositeNeighbour
        (setFilled 7 (Some True) (setFilled 0 (Some False) (setFilled 7 None triangleGraph))) 7"
    by (simp add: triangleGraph_def)
  show ?thesis using a b c r triangle_fill o n by blast
qed

subsection \<open>Splitting edges at intersections\<close>

text \<open>
  C5. \<^verbatim>\<open>eliminateIntersection\<close> returns the graph unchanged when the scan finds nothing;
  what the scan finds is an intersection reported by \<^verbatim>\<open>intersect\<close> for a pair of edges
  of which at least one parameter is internal, and the loop goes on with the graph split
  by \<^verbatim>\<open>simpleSplit\<close> at that intersection. For a parameter between 0 and 1, internal
  means farther than \<open>1e-5\<close> from both ends. \<^verbatim>\<open>simpleSplit\<close> splits both edges at a new
  vertex, made at the intersection point, exactly when both parameters are internal; with
  one internal parameter it splits that edge only, at the end vertex of the other edge
  nearer to the other parameter (start vertex below one half); with none it leaves the
  graph alone. A split edge is replaced by two edges, from its start vertex to the given
  vertex and from there to its end vertex, carrying the two parts of the subdivided
  segment.
\<close>

theorem eliminateIntersection_splits:
  "(findIntersection env g (edges g) = None \<longrightarrow> eliminateIntersection env g = Some g)
   \<and> (findIntersection env g (edges g) = Some (aEdge, bEdge, x) \<longrightarrow>
        x \<in> set (intersect env (segment (edgeObj g aEdge)) (segment (edgeObj g bEdge)))
        \<and> (isInternal (aT (snd x)) \<or> isInternal (bT (snd x)))
        \<and> eliminateIntersection env g
            = eliminateIntersection env
                (simpleSplit env aEdge bEdge (aT (snd x)) (bT (snd x)) (fst x) g))
   \<and> (0 \<le> t \<and> t \<le> 1 \<longrightarrow>
        isInternal t = (\<bar>t - 0\<bar> > 1 / 100000 \<and> \<bar>t - 1\<bar> > 1 / 100000))
   \<and> simpleSplit env aEdge bEdge ta tb p g =
       (if isInternal ta \<and> isInternal tb
        then splitEdge env bEdge tb (fst (pushVertex p g))
               (splitEdge env aEdge ta (fst (pushVertex p g)) (snd (pushVertex p g)))
        else if isInternal ta then splitEdge env aEdge ta (nearerVertex g bEdge tb) g
        else if isInternal tb then splitEdge env bEdge tb (nearerVertex g aEdge ta) g
        else g)
   \<and> fst (pushVertex p g) = nextId g
   \<and> vertices (snd (pushVertex p g)) = vertices g @ [nextId g]
   \<and> point (vertexObj (snd (pushVertex p g)) (nextId g)) = p
   \<and> edges (splitEdge env e t v g) = remove1 e (edges g) @ [nextId g, Suc (nextId g)]
   \<and> vertices (splitEdge env e t v g) = vertices g
   \<and> startVertex (edgeObj (splitEdge env e t v g) (nextId g)) = startVertex (edgeObj g e)
   \<and> endVertex (edgeObj (splitEdge env e t v g) (nextId g)) = v
   \<and> startVertex (edgeObj (splitEdge env e t v g) (Suc (nextId g))) = v
   \<and> endVertex (edgeObj (splitEdge env e t v g) (Suc (nextId g))) = endVertex (edgeObj g e)
   \<and> segment (edgeObj (splitEdge env e t v g) (nextId g))
       = fst (subdivided env (segment (edgeObj g e)) t)
   \<and> segment (edgeObj (splitEdge env e t v g) (Suc (nextId g)))
       = snd (subdivided env (segment (edgeObj g e)) t)"
proof -
  have a: "findIntersection env g (edges g) = None \<longrightarrow> eliminateIntersection env g = Some g"
    by (subst eliminateIntersection.simps) simp
  have b: "findIntersection env g (edges g) = Some (aEdge, bEdge, x) \<longrightarrow>
        x \<in> set (intersect env (segment (edgeObj g aEdge)) (segment (edgeObj g bEdge)))
        \<and> (isInternal (aT (snd x)) \<or> isInternal (bT (snd x)))
        \<and> eliminateIntersection env g
            = eliminateIntersection env
                (simpleSplit env aEdge bEdge (aT (snd x)) (bT (snd x)) (fst x) g)"
  proof
    assume f: "findIntersection env g (edges g) = Some (aEdge, bEdge, x)"
    have "eliminateIntersection env g
            = eliminateIntersection env
                (simpleSplit env aEdge bEdge (aT (snd x)) (bT (snd x)) (fst x) g)"
      by (subst eliminateIntersection.simps) (simp add: f)
    then show "x \<in> set (intersect env (segment (edgeObj g aEdge)) (segment (edgeObj g bEdge)))
        \<and> (isInternal (aT (snd x)) \<or> isInternal (bT (snd x)))
        \<and> eliminateIntersection env g
            = eliminateIntersection env
                (simpleSplit env aEdge bEdge (aT (snd x)) (bT (snd x)) (fst x) g)"
      using findIntersection_Some[OF f] by (simp add: keepIntersection_def)
  qed
  have c: "0 \<le> t \<and> t \<le> 1 \<longrightarrow>
        isInternal t = (\<bar>t - 0\<bar> > 1 / 100000 \<and> \<bar>t - 1\<bar> > 1 / 100000)"
    using isInternal_distance[of t] by blast
  note d = simpleSplit_cases[of env aEdge bEdge ta tb p g]
  have e: "fst (pushVertex p g) = nextId g"
    "vertices (snd (pushVertex p g)) = vertices g @ [nextId g]"
    "point (vertexObj (snd (pushVertex p g)) (nextId g)) = p"
    by (simp_all add: pushVertex_eq)
  note f = splitEdge_effect[of env e t v g]
  show ?thesis
    apply (intro conjI)
    subgoal by (rule a)
    subgoal by (rule b)
    subgoal by (rule c)
    subgoal by (rule d)
    subgoal by (rule e(1))
    subgoal by (rule e(2))
    subgoal by (rule e(3))
    subgoal using f by simp
    subgoal using f by simp
    subgoal using f by simp
    subgoal using f by simp
    subgoal using f by simp
    subgoal using f by simp
    subgoal using f by simp
    subgoal using f by simp
    done
qed

theorem eliminateIntersection_splits_witness:
  "findIntersection (planeEnv False crossIntersect (\<lambda>_ _. [])) crossGraph (edges crossGraph)
     = Some (5, 6, ((Num 1, Num 1), \<lparr>aT = 1 / 2, bT = 1 / 2\<rparr>))
   \<and> isInternal (1 / 2)
   \<and> edges (simpleSplit (planeEnv False crossIntersect (\<lambda>_ _. [])) 5 6 (1 / 2) (1 / 2)
              (Num 1, Num 1) crossGraph) = [8, 9, 10, 11]
   \<and> vertices (simpleSplit (planeEnv False crossIntersect (\<lambda>_ _. [])) 5 6 (1 / 2) (1 / 2)
              (Num 1, Num 1) crossGraph) = [1, 2, 3, 4, 7]
   \<and> eliminateIntersection (planeEnv False crossIntersect (\<lambda>_ _. [])) crossGraph
       = eliminateIntersection (planeEnv False crossIntersect (\<lambda>_ _. []))
           (simpleSplit (planeEnv False crossIntersect (\<lambda>_ _. [])) 5 6 (1 / 2) (1 / 2)
              (Num 1, Num 1) crossGraph)"
proof -
  note t = eliminateIntersection_splits [where env = "planeEnv False crossIntersect (\<lambda>_ _. [])"
      and g = crossGraph and aEdge = 5 and bEdge = 6
      and x = "((Num 1, Num 1), \<lparr>aT = 1 / 2, bT = 1 / 2\<rparr>)"]
  have i: "isInternal (1 / 2)" by (simp add: isInternal_def)
  from t cross_found have
    "eliminateIntersection (planeEnv False crossIntersect (\<lambda>_ _. [])) crossGraph
       = eliminateIntersection (planeEnv False crossIntersect (\<lambda>_ _. []))
           (simpleSplit (planeEnv False crossIntersect (\<lambda>_ _. [])) 5 6 (1 / 2) (1 / 2)
              (Num 1, Num 1) crossGraph)"
    by simp
  then show ?thesis using cross_found i cross_split by simp
qed

subsection \<open>Splitting overlapping edges\<close>

text \<open>
  C6. \<^verbatim>\<open>eliminateOverlap\<close> returns the graph unchanged when the scan finds nothing; what
  the scan finds is an overlap reported for a pair of edges with both \<open>|t1 - t0|\<close> and
  \<open>|qt1 - qt0|\<close> above \<open>1e-5\<close>, and the loop goes on with the graph split by
  \<^verbatim>\<open>splitOverlap\<close>. For an overlap whose parameters lie between 0 and 1 in increasing
  order, the pieces are cut at the parameters rounded to the ends (\<open>snapToEnds\<close>): a
  piece before the overlap exists when the rounded lower parameter is above 0, a piece
  after it when the rounded upper parameter is below 1, and the middle piece is cut from
  the first segment. The two edges leave the edge list; one edge for the middle piece and
  one for every piece that exists join it, at most five, all different. The first of the
  new edges carries the middle piece; it is the one edge that occurs both in the half-edges
  that replace the first edge in the loops (forwards) and in those that replace the second
  edge (forwards or, for a reversed overlap, backwards).
\<close>

theorem eliminateOverlap_splits:
  "(findOverlap env g (edges g) = None \<longrightarrow> eliminateOverlap env g = Some g)
   \<and> (findOverlap env g (edges g) = Some (aEdge, bEdge, ov) \<longrightarrow>
        ov \<in> set (pairOverlaps env (segment (edgeObj g aEdge)) (segment (edgeObj g bEdge)))
        \<and> \<bar>t1 ov - t0 ov\<bar> > 1 / 100000 \<and> \<bar>qt1 ov - qt0 ov\<bar> > 1 / 100000
        \<and> eliminateOverlap env g = eliminateOverlap env (splitOverlap env aEdge bEdge ov g))
   \<and> (0 \<le> t0 ov \<and> t0 ov \<le> t1 ov \<and> t1 ov \<le> 1 \<and> \<bar>t1 ov - t0 ov\<bar> > 1 / 100000
      \<and> 0 \<le> qt0 ov \<and> qt0 ov \<le> qt1 ov \<and> qt1 ov \<le> 1 \<and> \<bar>qt1 ov - qt0 ov\<bar> > 1 / 100000 \<longrightarrow>
        overlapPieces env aSegment bSegment ov =
          (let u0 = snapToEnds (t0 ov); u1 = snapToEnds (t1 ov);
               q0 = snapToEnds (qt0 ov); q1 = snapToEnds (qt1 ov)
           in (if u0 > 0 then Some (fst (subdivided env aSegment u0)) else None,
               if q0 > 0 then Some (fst (subdivided env bSegment q0)) else None,
               if u1 < 1 then Some (snd (subdivided env aSegment u1)) else None,
               if q1 < 1 then Some (snd (subdivided env bSegment q1)) else None,
               (let middle0 = (if u0 > 0 then snd (subdivided env aSegment u0) else aSegment)
                in if u1 < 1 then fst (subdivided env middle0 (linearMap env u0 1 0 1 u1))
                   else middle0))))
   \<and> (case overlapPieces env (segment (edgeObj g aEdge)) (segment (edgeObj g bEdge)) ov of
        (aBefore, bBefore, aAfter, bAfter, middle) \<Rightarrow>
      case splitOverlapParts env aEdge bEdge ov g of
        (newEdges, aForwardHalfEdges, bForwardHalfEdges, g') \<Rightarrow>
          edges (splitOverlap env aEdge bEdge ov g)
            = remove1 bEdge (remove1 aEdge (edges g)) @ newEdges
        \<and> loops (splitOverlap env aEdge bEdge ov g)
            = map (\<lambda>l. l\<lparr>halfEdges := replaceInLoop bEdge bForwardHalfEdges
                          (replaceInLoop aEdge aForwardHalfEdges (halfEdges l))\<rparr>) (loops g)
        \<and> length newEdges = 1 + length (optionList aBefore) + length (optionList aAfter)
                               + length (optionList bBefore) + length (optionList bAfter)
        \<and> length newEdges \<le> 5
        \<and> distinct newEdges
        \<and> newEdges \<noteq> []
        \<and> segment (edgeObj (splitOverlap env aEdge bEdge ov g) (hd newEdges)) = middle
        \<and> length aForwardHalfEdges = 1 + length (optionList aBefore) + length (optionList aAfter)
        \<and> length bForwardHalfEdges = 1 + length (optionList bBefore) + length (optionList bAfter)
        \<and> forwardHalf (hd newEdges) \<in> set aForwardHalfEdges
        \<and> (if overlapA ov > 0 then forwardHalf (hd newEdges) else reversedHalf (hd newEdges))
             \<in> set bForwardHalfEdges
        \<and> fst ` set aForwardHalfEdges \<inter> fst ` set bForwardHalfEdges = {hd newEdges}
        \<and> fst ` set aForwardHalfEdges \<union> fst ` set bForwardHalfEdges = set newEdges)"
proof -
  have a: "findOverlap env g (edges g) = None \<longrightarrow> eliminateOverlap env g = Some g"
    by (subst eliminateOverlap.simps) simp
  have b: "findOverlap env g (edges g) = Some (aEdge, bEdge, ov) \<longrightarrow>
        ov \<in> set (pairOverlaps env (segment (edgeObj g aEdge)) (segment (edgeObj g bEdge)))
        \<and> \<bar>t1 ov - t0 ov\<bar> > 1 / 100000 \<and> \<bar>qt1 ov - qt0 ov\<bar> > 1 / 100000
        \<and> eliminateOverlap env g = eliminateOverlap env (splitOverlap env aEdge bEdge ov g)"
  proof
    assume f: "findOverlap env g (edges g) = Some (aEdge, bEdge, ov)"
    have "eliminateOverlap env g = eliminateOverlap env (splitOverlap env aEdge bEdge ov g)"
      by (subst eliminateOverlap.simps) (simp add: f)
    then show "ov \<in> set (pairOverlaps env (segment (edgeObj g aEdge)) (segment (edgeObj g bEdge)))
        \<and> \<bar>t1 ov - t0 ov\<bar> > 1 / 100000 \<and> \<bar>qt1 ov - qt0 ov\<bar> > 1 / 100000
        \<and> eliminateOverlap env g = eliminateOverlap env (splitOverlap env aEdge bEdge ov g)"
      using findOverlap_Some[OF f] by (simp add: significantOverlap_def)
  qed
  have c: "0 \<le> t0 ov \<and> t0 ov \<le> t1 ov \<and> t1 ov \<le> 1 \<and> \<bar>t1 ov - t0 ov\<bar> > 1 / 100000
      \<and> 0 \<le> qt0 ov \<and> qt0 ov \<le> qt1 ov \<and> qt1 ov \<le> 1 \<and> \<bar>qt1 ov - qt0 ov\<bar> > 1 / 100000 \<longrightarrow>
        overlapPieces env aSegment bSegment ov =
          (let u0 = snapToEnds (t0 ov); u1 = snapToEnds (t1 ov);
               q0 = snapToEnds (qt0 ov); q1 = snapToEnds (qt1 ov)
           in (if u0 > 0 then Some (fst (subdivided env aSegment u0)) else None,
               if q0 > 0 then Some (fst (subdivided env bSegment q0)) else None,
               if u1 < 1 then Some (snd (subdivided env aSegment u1)) else None,
               if q1 < 1 then Some (snd (subdivided env bSegment q1)) else None,
               (let middle0 = (if u0 > 0 then snd (subdivided env aSegment u0) else aSegment)
                in if u1 < 1 then fst (subdivided env middle0 (linearMap env u0 1 0 1 u1))
                   else middle0)))"
  proof
    assume h: "0 \<le> t0 ov \<and> t0 ov \<le> t1 ov \<and> t1 ov \<le> 1 \<and> \<bar>t1 ov - t0 ov\<bar> > 1 / 100000
      \<and> 0 \<le> qt0 ov \<and> qt0 ov \<le> qt1 ov \<and> qt1 ov \<le> 1 \<and> \<bar>qt1 ov - qt0 ov\<bar> > 1 / 100000"
    have s: "snapLow (t0 ov) = snapToEnds (t0 ov)" "snapHigh (t1 ov) = snapToEnds (t1 ov)"
      "snapLow (qt0 ov) = snapToEnds (qt0 ov)" "snapHigh (qt1 ov) = snapToEnds (qt1 ov)"
      using h snap_contract[of "t0 ov" "t1 ov"] snap_contract[of "qt0 ov" "qt1 ov"] by blast+
    show "overlapPieces env aSegment bSegment ov =
          (let u0 = snapToEnds (t0 ov); u1 = snapToEnds (t1 ov);
               q0 = snapToEnds (qt0 ov); q1 = snapToEnds (qt1 ov)
           in (if u0 > 0 then Some (fst (subdivided env aSegment u0)) else None,
               if q0 > 0 then Some (fst (subdivided env bSegment q0)) else None,
               if u1 < 1 then Some (snd (subdivided env aSegment u1)) else None,
               if q1 < 1 then Some (snd (subdivided env bSegment q1)) else None,
               (let middle0 = (if u0 > 0 then snd (subdivided env aSegment u0) else aSegment)
                in if u1 < 1 then fst (subdivided env middle0 (linearMap env u0 1 0 1 u1))
                   else middle0)))"
      unfolding overlapPieces_def s Let_def ..
  qed
  have d: "case overlapPieces env (segment (edgeObj g aEdge)) (segment (edgeObj g bEdge)) ov of
        (aBefore, bBefore, aAfter, bAfter, middle) \<Rightarrow>
      case splitOverlapParts env aEdge bEdge ov g of
        (newEdges, aForwardHalfEdges, bForwardHalfEdges, g') \<Rightarrow>
          edges (splitOverlap env aEdge bEdge ov g)
            = remove1 bEdge (remove1 aEdge (edges g)) @ newEdges
        \<and> loops (splitOverlap env aEdge bEdge ov g)
            = map (\<lambda>l. l\<lparr>halfEdges := replaceInLoop bEdge bForwardHalfEdges
                          (replaceInLoop aEdge aForwardHalfEdges (halfEdges l))\<rparr>) (loops g)
        \<and> length newEdges = 1 + length (optionList aBefore) + length (optionList aAfter)
                               + length (optionList bBefore) + length (optionList bAfter)
        \<and> length newEdges \<le> 5
        \<and> distinct newEdges
        \<and> newEdges \<noteq> []
        \<and> segment (edgeObj (splitOverlap env aEdge bEdge ov g) (hd newEdges)) = middle
        \<and> length aForwardHalfEdges = 1 + length (optionList aBefore) + length (optionList aAfter)
        \<and> length bForwardHalfEdges = 1 + length (optionList bBefore) + length (optionList bAfter)
        \<and> forwardHalf (hd newEdges) \<in> set aForwardHalfEdges
        \<and> (if overlapA ov > 0 then forwardHalf (hd newEdges) else reversedHalf (hd newEdges))
             \<in> set bForwardHalfEdges
        \<and> fst ` set aForwardHalfEdges \<inter> fst ` set bForwardHalfEdges = {hd newEdges}
        \<and> fst ` set aForwardHalfEdges \<union> fst ` set bForwardHalfEdges = set newEdges"
  proof -
    obtain aB bB aA bA mid where
      p: "overlapPieces env (segment (edgeObj g aEdge)) (segment (edgeObj g bEdge)) ov
             = (aB, bB, aA, bA, mid)"
      by (cases "overlapPieces env (segment (edgeObj g aEdge)) (segment (edgeObj g bEdge)) ov")
    define vb where "vb = (if aB \<noteq> None \<and> bB \<noteq> None then [nextId g] else [])"
    define va where "va = (if aA \<noteq> None \<and> bA \<noteq> None then [nextId g + length vb] else [])"
    define m where "m = nextId g + length vb + length va"
    define ab where "ab = pieceEdge (Suc m) aB"
    define aa where "aa = pieceEdge (Suc m + length ab) aA"
    define bb where "bb = pieceEdge (Suc m + length ab + length aa) bB"
    define ba where "ba = pieceEdge (Suc m + length ab + length aa + length bb) bA"
    from splitOverlapParts_result[OF p vb_def va_def m_def ab_def aa_def bb_def ba_def]
    obtain g' where
      r: "splitOverlapParts env aEdge bEdge ov g
           = (m # ab @ aa @ bb @ ba,
              map forwardHalf (ab @ [m] @ aa),
              map forwardHalf bb
                @ [if overlapA ov > 0 then forwardHalf m else reversedHalf m]
                @ map forwardHalf ba,
              g')"
      and e: "edges g' = remove1 bEdge (remove1 aEdge (edges g)) @ m # ab @ aa @ bb @ ba"
      and l: "loops g' = loops g"
      and s: "segment (edgeObj g' m) = mid"
      by blast
    let ?aF = "map forwardHalf (ab @ [m] @ aa)"
    let ?bF = "map forwardHalf bb
                @ [if overlapA ov > 0 then forwardHalf m else reversedHalf m]
                @ map forwardHalf ba"
    have so: "splitOverlap env aEdge bEdge ov g
                = replaceEdgeInLoops bEdge ?bF (replaceEdgeInLoops aEdge ?aF g')"
      unfolding splitOverlap_def r by simp
    have len: "length ab = length (optionList aB)" "length aa = length (optionList aA)"
      "length bb = length (optionList bB)" "length ba = length (optionList bA)"
      by (simp_all add: ab_def aa_def bb_def ba_def pieceEdge_def optionList_def split: option.splits)
    have le: "length ab \<le> 1" "length aa \<le> 1" "length bb \<le> 1" "length ba \<le> 1"
      by (simp_all add: ab_def aa_def bb_def ba_def pieceEdge_def split: option.splits)
    have sets: "set ab = (if ab = [] then {} else {Suc m})"
      "set aa = (if aa = [] then {} else {Suc m + length ab})"
      "set bb = (if bb = [] then {} else {Suc m + length ab + length aa})"
      "set ba = (if ba = [] then {} else {Suc m + length ab + length aa + length bb})"
      "distinct ab" "distinct aa" "distinct bb" "distinct ba"
      by (simp_all add: ab_def aa_def bb_def ba_def pieceEdge_def split: option.splits)
    have lens: "length ab = (if ab = [] then 0 else 1)" "length aa = (if aa = [] then 0 else 1)"
      "length bb = (if bb = [] then 0 else 1)"
      by (simp_all add: ab_def aa_def bb_def pieceEdge_def split: option.splits)
    have dist: "distinct (m # ab @ aa @ bb @ ba)"
      using sets(5-8) by (auto simp: sets(1-4) lens split: if_splits)
    have fsts: "fst ` set ?aF = {m} \<union> set ab \<union> set aa"
      "fst ` set ?bF = {m} \<union> set bb \<union> set ba"
      by (auto simp: forwardHalf_def reversedHalf_def image_Un image_image)
    have inter: "fst ` set ?aF \<inter> fst ` set ?bF = {m}"
      unfolding fsts using dist by auto
    have un: "fst ` set ?aF \<union> fst ` set ?bF = set (m # ab @ aa @ bb @ ba)"
      unfolding fsts by auto
    have x1: "edges (splitOverlap env aEdge bEdge ov g)
            = remove1 bEdge (remove1 aEdge (edges g)) @ m # ab @ aa @ bb @ ba"
      unfolding so using e by (simp add: replaceEdgeInLoops_def)
    have x2: "loops (splitOverlap env aEdge bEdge ov g)
            = map (\<lambda>l. l\<lparr>halfEdges := replaceInLoop bEdge ?bF
                          (replaceInLoop aEdge ?aF (halfEdges l))\<rparr>) (loops g)"
      unfolding so using l by (simp add: replaceEdgeInLoops_def comp_def)
    have x3: "segment (edgeObj (splitOverlap env aEdge bEdge ov g) m) = mid"
      unfolding so using s by (simp add: replaceEdgeInLoops_def)
    have x4: "forwardHalf m \<in> set ?aF"
      "(if overlapA ov > 0 then forwardHalf m else reversedHalf m) \<in> set ?bF"
      by simp_all
    have x5: "length (m # ab @ aa @ bb @ ba) = 1 + length (optionList aB) + length (optionList aA)
                               + length (optionList bB) + length (optionList bA)"
      "length (m # ab @ aa @ bb @ ba) \<le> 5"
      "length ?aF = 1 + length (optionList aB) + length (optionList aA)"
      "length ?bF = 1 + length (optionList bB) + length (optionList bA)"
      using le len by simp_all
    show ?thesis
      unfolding p r prod.case list.sel
      apply (intro conjI)
      subgoal by (rule x1)
      subgoal by (rule x2)
      subgoal by (rule x5(1))
      subgoal by (rule x5(2))
      subgoal by (rule dist)
      subgoal by simp
      subgoal by (rule x3)
      subgoal by (rule x5(3))
      subgoal by (rule x5(4))
      subgoal by (rule x4(1))
      subgoal by (rule x4(2))
      subgoal by (rule inter)
      subgoal by (rule un)
      done
  qed
  show ?thesis
    apply (intro conjI)
    subgoal by (rule a)
    subgoal by (rule b)
    subgoal by (rule c)
    subgoal by (rule d)
    done
qed

theorem eliminateOverlap_splits_witness:
  "findOverlap (planeEnv False (\<lambda>_ _. []) lineOverlaps) overlapGraph (edges overlapGraph)
     = Some (5, 6, \<lparr>t0 = 1 / 2, t1 = 1 - 1 / 1000000, qt0 = 1 / 1000000, qt1 = 1 / 2,
                    overlapA = 1\<rparr>)
   \<and> eliminateOverlap (planeEnv False (\<lambda>_ _. []) lineOverlaps) overlapGraph
       = eliminateOverlap (planeEnv False (\<lambda>_ _. []) lineOverlaps)
           (splitOverlap (planeEnv False (\<lambda>_ _. []) lineOverlaps) 5 6
              \<lparr>t0 = 1 / 2, t1 = 1 - 1 / 1000000, qt0 = 1 / 1000000, qt1 = 1 / 2, overlapA = 1\<rparr>
              overlapGraph)
   \<and> snapToEnds (1 - 1 / 1000000) = 1 \<and> snapToEnds (1 / 1000000) = 0
   \<and> overlapPieces (planeEnv False (\<lambda>_ _. []) lineOverlaps)
        (Line (Num 0, Num 0) (Num 2, Num 0)) (Line (Num 1, Num 0) (Num 3, Num 0))
        \<lparr>t0 = 1 / 2, t1 = 1 - 1 / 1000000, qt0 = 1 / 1000000, qt1 = 1 / 2, overlapA = 1\<rparr>
       = (Some (Line (Num 0, Num 0) (Num 1, Num 0)), None, None,
          Some (Line (Num 2, Num 0) (Num 3, Num 0)), Line (Num 1, Num 0) (Num 2, Num 0))
   \<and> edges (splitOverlap (planeEnv False (\<lambda>_ _. []) lineOverlaps) 5 6
              \<lparr>t0 = 1 / 2, t1 = 1 - 1 / 1000000, qt0 = 1 / 1000000, qt1 = 1 / 2, overlapA = 1\<rparr>
              overlapGraph) = [7, 8, 9]
   \<and> loops (splitOverlap (planeEnv False (\<lambda>_ _. []) lineOverlaps) 5 6
              \<lparr>t0 = 1 / 2, t1 = 1 - 1 / 1000000, qt0 = 1 / 1000000, qt1 = 1 / 2, overlapA = 1\<rparr>
              overlapGraph)
       = [\<lparr>shapeId = 0, halfEdges = [forwardHalf 8, forwardHalf 7]\<rparr>,
          \<lparr>shapeId = 1, halfEdges = [reversedHalf 9, reversedHalf 7]\<rparr>]
   \<and> segment (edgeObj (splitOverlap (planeEnv False (\<lambda>_ _. []) lineOverlaps) 5 6
              \<lparr>t0 = 1 / 2, t1 = 1 - 1 / 1000000, qt0 = 1 / 1000000, qt1 = 1 / 2, overlapA = 1\<rparr>
              overlapGraph) 7) = Line (Num 1, Num 0) (Num 2, Num 0)"
proof -
  let ?E = "planeEnv False (\<lambda>_ _. []) lineOverlaps"
  let ?ov = "\<lparr>t0 = 1 / 2, t1 = 1 - 1 / 1000000, qt0 = 1 / 1000000, qt1 = 1 / 2, overlapA = 1\<rparr>"
  let ?A = "Line (Num 0, Num 0) (Num 2, Num 0)"
  let ?B = "Line (Num 1, Num 0) (Num 3, Num 0)"
  note t = eliminateOverlap_splits [where env = ?E and g = overlapGraph and aEdge = 5
      and bEdge = 6 and ov = ?ov and aSegment = ?A and bSegment = ?B]
  note tb = t [THEN conjunct2, THEN conjunct1, rule_format]
  note tc = t [THEN conjunct2, THEN conjunct2, THEN conjunct1, rule_format]
  note td = t [THEN conjunct2, THEN conjunct2, THEN conjunct2]
  have loop: "eliminateOverlap ?E overlapGraph
       = eliminateOverlap ?E (splitOverlap ?E 5 6 ?ov overlapGraph)"
    using tb [OF overlap_found] by blast
  have "overlapPieces ?E ?A ?B ?ov =
          (let u0 = snapToEnds (t0 ?ov); u1 = snapToEnds (t1 ?ov);
               q0 = snapToEnds (qt0 ?ov); q1 = snapToEnds (qt1 ?ov)
           in (if u0 > 0 then Some (fst (subdivided ?E ?A u0)) else None,
               if q0 > 0 then Some (fst (subdivided ?E ?B q0)) else None,
               if u1 < 1 then Some (snd (subdivided ?E ?A u1)) else None,
               if q1 < 1 then Some (snd (subdivided ?E ?B q1)) else None,
               (let middle0 = (if u0 > 0 then snd (subdivided ?E ?A u0) else ?A)
                in if u1 < 1 then fst (subdivided ?E middle0 (linearMap ?E u0 1 0 1 u1))
                   else middle0)))"
    by (rule tc) simp
  then have pieces: "overlapPieces ?E ?A ?B ?ov
       = (Some (Line (Num 0, Num 0) (Num 1, Num 0)), None, None,
          Some (Line (Num 2, Num 0) (Num 3, Num 0)), Line (Num 1, Num 0) (Num 2, Num 0))"
    by (simp add: overlap_snapped overlap_cut Let_def)
  have pieces': "overlapPieces ?E (segment (edgeObj overlapGraph 5))
        (segment (edgeObj overlapGraph 6)) ?ov
       = (Some (Line (Num 0, Num 0) (Num 1, Num 0)), None, None,
          Some (Line (Num 2, Num 0) (Num 3, Num 0)), Line (Num 1, Num 0) (Num 2, Num 0))"
    unfolding overlap_frame by (rule pieces)
  from splitOverlapParts_result [OF pieces', where vb = "[]" and va = "[]" and m = 7
      and ab = "[8]" and aa = "[]" and bb = "[]" and ba = "[9]"]
  obtain g' where r: "splitOverlapParts ?E 5 6 ?ov overlapGraph
      = ([7, 8, 9], [forwardHalf 8, forwardHalf 7], [forwardHalf 7, forwardHalf 9], g')"
    by (auto simp: pieceEdge_def overlap_frame)
  note x = td [unfolded pieces' r prod.case]
  have e: "edges (splitOverlap ?E 5 6 ?ov overlapGraph) = [7, 8, 9]"
    using x [THEN conjunct1] by (simp add: overlap_frame)
  have l: "loops (splitOverlap ?E 5 6 ?ov overlapGraph)
       = [\<lparr>shapeId = 0, halfEdges = [forwardHalf 8, forwardHalf 7]\<rparr>,
          \<lparr>shapeId = 1, halfEdges = [reversedHalf 9, reversedHalf 7]\<rparr>]"
    using x [THEN conjunct2, THEN conjunct1] by (simp add: overlap_frame overlap_replaced)
  have s: "segment (edgeObj (splitOverlap ?E 5 6 ?ov overlapGraph) 7)
       = Line (Num 1, Num 0) (Num 2, Num 0)"
    using x [THEN conjunct2, THEN conjunct2, THEN conjunct2, THEN conjunct2, THEN conjunct2,
             THEN conjunct2, THEN conjunct1] by simp
  show ?thesis using overlap_found loop overlap_snapped(2,3) pieces e l s by blast
qed

subsection \<open>Collapsing close vertices\<close>




end
